theory Spec2Isabelle
  imports Complex_Main "HOL-Library.Sublist" "HOL-Library.Multiset"
begin

section \<open>The YouTube transcriber server (dist/index.js)\<close>

text \<open>
  A shallow embedding of the class \<open>YouTubeTranscriberServer\<close>: the reference resolver
  (\<open>extractUrlFromCommand\<close>, \<open>extractVideoId\<close>), the transcript store (the JavaScript
  \<open>Map\<close> held in \<open>this.videos\<close>), the search engine (\<open>searchInTranscript\<close>) and the tool
  handlers built from them.

  Conventions of the embedding.
  \<^item> A JavaScript string is a \<open>string\<close>, each \<open>char\<close> read as one code unit in the range
    U+0000 to U+00FF. The character classes of the regular expressions and of \<open>trim\<close> and
    the case mapping of \<open>toLowerCase\<close> are the ones ECMAScript gives on that range.
  \<^item> A JavaScript number is a \<open>real\<close>: the values are finite and the rounding of IEEE
    arithmetic is not modelled. Array indices and lengths are \<open>nat\<close>, the
    \<open>contextWords\<close> argument is an \<open>int\<close>.
  \<^item> The \<open>Map\<close> is an association list in insertion order, as \<open>Map\<close> enumerates.
  \<^item> A handler takes the state and returns its response with the state after the call.
    The text of a response is not modelled: a response is a constructor carrying the
    values the text is printed from.
  \<^item> An optional argument is an \<open>option\<close>, \<open>None\<close> being \<open>undefined\<close>.
\<close>

subsection \<open>Strings\<close>

definition code :: "char \<Rightarrow> nat" where
  "code c = of_char c"

definition isLower :: "char \<Rightarrow> bool" where
  "isLower c = (97 \<le> code c \<and> code c \<le> 122)"

definition isUpper :: "char \<Rightarrow> bool" where
  "isUpper c = (65 \<le> code c \<and> code c \<le> 90)"

definition isDigit :: "char \<Rightarrow> bool" where
  "isDigit c = (48 \<le> code c \<and> code c \<le> 57)"

text \<open>The class \<open>[a-zA-Z0-9_-]\<close> of the identifier patterns.\<close>

definition isIdChar :: "char \<Rightarrow> bool" where
  "isIdChar c = (isLower c \<or> isUpper c \<or> isDigit c \<or> c = CHR ''_'' \<or> c = CHR ''-'')"

text \<open>
  The class \<open>\s\<close>, which is also what \<open>trim\<close> strips: tab, line feed, vertical tab, form
  feed, carriage return, space and the no-break space.
\<close>

definition isSpace :: "char \<Rightarrow> bool" where
  "isSpace c = (code c \<in> {9, 10, 11, 12, 13, 32, 160})"

text \<open>The line terminators, which \<open>.\<close> does not match.\<close>

definition isLineTerminator :: "char \<Rightarrow> bool" where
  "isLineTerminator c = (code c = 10 \<or> code c = 13)"

text \<open>
  \<open>toLowerCase\<close>: the letters A to Z and the capital letters of U+00C0 to U+00DE (the
  multiplication sign U+00D7 apart) move 32 code points up.
\<close>

definition lowerChar :: "char \<Rightarrow> char" where
  "lowerChar c =
     (if isUpper c \<or> (192 \<le> code c \<and> code c \<le> 222 \<and> code c \<noteq> 215)
      then char_of (code c + 32) else c)"

definition toLowerCase :: "string \<Rightarrow> string" where
  "toLowerCase s = map lowerChar s"

definition trim :: "string \<Rightarrow> string" where
  "trim s = rev (dropWhile isSpace (rev (dropWhile isSpace s)))"

text \<open>\<open>String.prototype.includes\<close>: the needle occurs at some position of the text.\<close>

fun str_includes :: "string \<Rightarrow> string \<Rightarrow> bool" where
  "str_includes [] q = (q = [])"
| "str_includes (c # cs) q = (prefix q (c # cs) \<or> str_includes cs q)"

text \<open>\<open>Array.prototype.join\<close> on an array of strings.\<close>

fun join :: "string \<Rightarrow> string list \<Rightarrow> string" where
  "join sep [] = []"
| "join sep [x] = x"
| "join sep (x # y # ys) = x @ sep @ join sep (y # ys)"

text \<open>
  \<open>Array.prototype.slice(start, end)\<close>: a negative bound counts from the end of the
  array, and both bounds are clamped to the array.
\<close>

definition slice :: "'a list \<Rightarrow> int \<Rightarrow> int \<Rightarrow> 'a list" where
  "slice xs s e =
     (let n = int (length xs);
          k = (if s < 0 then max (n + s) 0 else min s n);
          f = (if e < 0 then max (n + e) 0 else min e n)
      in take (nat (f - k)) (drop (nat k) xs))"

subsection \<open>The data model\<close>

text \<open>An entry as the fetch adapter returns it: text, offset and duration in milliseconds.\<close>

record rawEntry =
  raw_text :: string
  raw_offset :: real
  raw_duration :: real

text \<open>An entry as it is stored: text, start and duration in seconds.\<close>

record transcriptEntry =
  entry_text :: string
  entry_start :: real
  entry_duration :: real

record videoData =
  vd_id :: string
  vd_url :: string
  vd_title :: string
  vd_language :: string
  vd_transcript :: "transcriptEntry list"
  vd_transcriptLength :: nat
  vd_totalDuration :: real

text \<open>What \<open>searchInTranscript\<close> pushes for one matching entry.\<close>

record searchMatch =
  m_timestamp :: real
  m_duration :: real
  m_text :: string
  m_context :: string
  m_matchIndex :: nat

text \<open>What \<open>searchTranscripts\<close> pushes: the match with its video.\<close>

record searchResult =
  r_videoId :: string
  r_videoUrl :: string
  r_videoTitle :: string
  r_match :: searchMatch

subsection \<open>The store\<close>

type_synonym store = "(string \<times> videoData) list"

definition mapGet :: "store \<Rightarrow> string \<Rightarrow> videoData option" where
  "mapGet m k = map_of m k"

definition mapHas :: "store \<Rightarrow> string \<Rightarrow> bool" where
  "mapHas m k = (map_of m k \<noteq> None)"

text \<open>\<open>Map.set\<close> replaces the value of a present key where it stands and appends a new key.\<close>

fun mapSet :: "store \<Rightarrow> string \<Rightarrow> videoData \<Rightarrow> store" where
  "mapSet [] k v = [(k, v)]"
| "mapSet (p # ps) k v = (if fst p = k then (k, v) # ps else p # mapSet ps k v)"

definition mapDelete :: "store \<Rightarrow> string \<Rightarrow> store" where
  "mapDelete m k = filter (\<lambda>p. fst p \<noteq> k) m"

definition mapKeys :: "store \<Rightarrow> string list" where
  "mapKeys m = map fst m"

definition mapSize :: "store \<Rightarrow> nat" where
  "mapSize m = length m"

text \<open>
  The state of the server: the store, and the calls made to the fetch adapter so far
  (video identifier and language of each call, oldest first).
\<close>

record state =
  videos :: store
  fetchLog :: "(string \<times> string) list"

text \<open>The state the constructor sets up: \<open>videos = new Map()\<close>, and no call made yet.\<close>

definition initialState :: state where
  "initialState = \<lparr>videos = [], fetchLog = []\<rparr>"

text \<open>
  What a \<open>Map\<close> guarantees and what \<open>addYouTubeVideo\<close> establishes: a key occurs once,
  and the record stored under a key carries that key as its \<open>id\<close>.
\<close>

definition store_ok :: "store \<Rightarrow> bool" where
  "store_ok m = (distinct (map fst m) \<and> list_all (\<lambda>p. vd_id (snd p) = fst p) m)"

subsection \<open>Responses\<close>

text \<open>The videos a search without matches names: up to three identifiers, or their number.\<close>

datatype searched = Listed string | Counted nat

datatype response =
    UrlNotFound string
  | InvalidReference string
  | AlreadyLoaded string
  | Loaded string string nat string real
  | ProviderError string string
  | EmptyStore
  | InvalidQuery
  | NoMatches string searched
  | Matches string "searchResult list"
  | NoVideos
  | VideoList nat "videoData list"
  | TranscriptNotFound string
  | TranscriptJson string "transcriptEntry list"
  | TranscriptText string string string "(int \<times> int \<times> string) list"
  | RemoveNotFound string
  | Removed string string
  | Cleared nat

subsection \<open>Regular expressions\<close>

text \<open>
  A pattern is run the way a backtracking matcher runs it: a matcher maps the rest of
  the input to the rests it can leave behind, in the order in which backtracking tries
  them. The first rest of a sequence is the match the engine reports.
\<close>

type_synonym matcher = "string \<Rightarrow> string list"

text \<open>A literal string.\<close>

definition lit :: "string \<Rightarrow> matcher" where
  "lit p s = (if prefix p s then [drop (length p) s] else [])"

text \<open>One pattern after the other.\<close>

definition seq :: "matcher \<Rightarrow> matcher \<Rightarrow> matcher" where
  "seq m1 m2 s = concat (map m2 (m1 s))"

text \<open>\<open>a|b\<close>: the left alternative is tried first.\<close>

definition alt :: "matcher \<Rightarrow> matcher \<Rightarrow> matcher" where
  "alt m1 m2 s = m1 s @ m2 s"

text \<open>\<open>a?\<close> is greedy: with the optional part first, then without it.\<close>

definition opt :: "matcher \<Rightarrow> matcher" where
  "opt m s = m s @ [s]"

text \<open>\<open>[class]*\<close> is greedy: the longest run first, then each shorter one.\<close>

definition star :: "(char \<Rightarrow> bool) \<Rightarrow> matcher" where
  "star P s = map (\<lambda>j. drop j s) (rev [0..<Suc (length (takeWhile P s))])"

text \<open>\<open>[class]{n}\<close>.\<close>

definition repeatN :: "(char \<Rightarrow> bool) \<Rightarrow> nat \<Rightarrow> matcher" where
  "repeatN P n s = (if n \<le> length s \<and> list_all P (take n s) then [drop n s] else [])"

text \<open>
  Each pattern of the source has one capture group: a regular expression is what stands
  before the group, the group, and what stands after it.
\<close>

type_synonym regex = "matcher \<times> matcher \<times> matcher"

text \<open>
  All the ways of matching at the start of the input, in backtracking order, each as the
  pair of the whole match (\<open>match[0]\<close>) and the group (\<open>match[1]\<close>).
\<close>

definition matchesAt :: "regex \<Rightarrow> string \<Rightarrow> (string \<times> string) list" where
  "matchesAt p s =
     (case p of (before, grp, after) \<Rightarrow>
        concat (map (\<lambda>r1.
          concat (map (\<lambda>r2.
            map (\<lambda>r3. (take (length s - length r3) s, take (length r1 - length r2) r1))
                (after r2))
            (grp r1)))
          (before s)))"

definition execAt :: "regex \<Rightarrow> string \<Rightarrow> (string \<times> string) option" where
  "execAt p s = (case matchesAt p s of [] \<Rightarrow> None | x # _ \<Rightarrow> Some x)"

text \<open>
  A pattern without \<open>^\<close> is tried at each position from the left (the end of the input
  included); the first position with a match wins.
\<close>

fun exec :: "regex \<Rightarrow> string \<Rightarrow> (string \<times> string) option" where
  "exec p [] = execAt p []"
| "exec p (c # cs) = (case execAt p (c # cs) of Some x \<Rightarrow> Some x | None \<Rightarrow> exec p cs)"

definition notSpace :: "char \<Rightarrow> bool" where
  "notSpace c = (\<not> isSpace c)"

definition notLineTerminator :: "char \<Rightarrow> bool" where
  "notLineTerminator c = (\<not> isLineTerminator c)"

subsection \<open>extractUrlFromCommand\<close>

text \<open>
  The three patterns of \<open>urlPatterns\<close>. With the flag \<open>g\<close>, \<open>command.match(pattern)\<close> is
  the array of all whole matches from left to right, or \<open>null\<close>; \<open>match[0]\<close> is the
  leftmost one.
\<close>

definition urlPattern1 :: regex where
  "urlPattern1 =
     (seq (lit ''http'') (seq (opt (lit ''s'')) (seq (lit ''://'')
        (seq (opt (alt (lit ''www.'') (lit ''m.'')))
             (alt (seq (lit ''youtube.com/watch?'') (seq (star notSpace) (lit ''v='')))
                  (lit ''youtu.be/''))))),
      repeatN isIdChar 11,
      star notSpace)"

definition urlPattern2 :: regex where
  "urlPattern2 =
     (seq (lit ''youtube.com/watch?'') (seq (star notSpace) (lit ''v='')),
      repeatN isIdChar 11,
      star notSpace)"

definition urlPattern3 :: regex where
  "urlPattern3 = (lit ''youtu.be/'', repeatN isIdChar 11, star notSpace)"

definition urlPatterns :: "regex list" where
  "urlPatterns = [urlPattern1, urlPattern2, urlPattern3]"

fun firstWholeMatch :: "regex list \<Rightarrow> string \<Rightarrow> string option" where
  "firstWholeMatch [] command = None"
| "firstWholeMatch (pattern # patterns) command =
     (case exec pattern command of
        Some m \<Rightarrow> Some (fst m)
      | None \<Rightarrow> firstWholeMatch patterns command)"

definition extractUrlFromCommand :: "string \<Rightarrow> string option" where
  "extractUrlFromCommand command = firstWholeMatch urlPatterns command"

subsection \<open>extractVideoId\<close>

definition idPattern1 :: regex where
  "idPattern1 =
     (alt (lit ''youtube.com/watch?v='') (alt (lit ''youtu.be/'') (lit ''youtube.com/embed/'')),
      repeatN isIdChar 11,
      lit [])"

definition idPattern2 :: regex where
  "idPattern2 =
     (seq (lit ''youtube.com/watch?'') (seq (star notLineTerminator) (lit ''v='')),
      repeatN isIdChar 11,
      lit [])"

definition idPatterns :: "regex list" where
  "idPatterns = [idPattern1, idPattern2]"

fun firstGroupMatch :: "regex list \<Rightarrow> string \<Rightarrow> string option" where
  "firstGroupMatch [] url = None"
| "firstGroupMatch (pattern # patterns) url =
     (case exec pattern url of
        Some m \<Rightarrow> Some (snd m)
      | None \<Rightarrow> firstGroupMatch patterns url)"

text \<open>\<open>/^[a-zA-Z0-9_-]{11}$/.test(url)\<close>: the class eleven times, then the end of the input.\<close>

definition isBareId :: "string \<Rightarrow> bool" where
  "isBareId url = ([] \<in> set (repeatN isIdChar 11 url))"

definition extractVideoId :: "string \<Rightarrow> string option" where
  "extractVideoId url =
     (case firstGroupMatch idPatterns url of
        Some videoId \<Rightarrow> Some videoId
      | None \<Rightarrow> if isBareId url then Some url else None)"

subsection \<open>getVideoInfo and searchInTranscript\<close>

definition getVideoInfo :: "string \<Rightarrow> videoData" where
  "getVideoInfo videoId =
     \<lparr>vd_id = videoId,
      vd_url = ''https://www.youtube.com/watch?v='' @ videoId,
      vd_title = ''Video '' @ videoId,
      vd_language = ''en'',
      vd_transcript = [],
      vd_transcriptLength = 0,
      vd_totalDuration = 0\<rparr>"

text \<open>\<open>x || 0\<close> on a number: zero is the only falsy finite number.\<close>

definition orZero :: "real \<Rightarrow> real" where
  "orZero x = (if x = 0 then 0 else x)"

text \<open>The object pushed for the entry at index \<open>i\<close>.\<close>

definition makeMatch :: "transcriptEntry list \<Rightarrow> int \<Rightarrow> nat \<Rightarrow> transcriptEntry \<Rightarrow> searchMatch" where
  "makeMatch transcript contextWords i entry =
     (let startIdx = max 0 (int i - contextWords);
          endIdx = min (int (length transcript)) (int i + contextWords + 1);
          contextEntries = slice transcript startIdx endIdx;
          contextText = join '' '' (map entry_text contextEntries)
      in \<lparr>m_timestamp = entry_start entry,
          m_duration = orZero (entry_duration entry),
          m_text = entry_text entry,
          m_context = contextText,
          m_matchIndex = i\<rparr>)"

text \<open>The \<open>forEach\<close> over the entries with their indices, pushing onto \<open>results\<close>.\<close>

definition searchInTranscript :: "transcriptEntry list \<Rightarrow> string \<Rightarrow> int \<Rightarrow> searchMatch list" where
  "searchInTranscript transcript query contextWords =
     (let queryLower = toLowerCase query
      in fold (\<lambda>(i, entry) results.
                 if str_includes (toLowerCase (entry_text entry)) queryLower
                 then results @ [makeMatch transcript contextWords i entry]
                 else results)
              (enumerate 0 transcript) [])"

subsection \<open>addYouTubeVideo and transcribeFromCommand\<close>

text \<open>
  The fetch adapter \<open>YoutubeTranscript.fetchTranscript\<close> is outside the program: it is a
  parameter, which answers a call (given the calls made before it) with the entries or
  with the message of the error it throws.
\<close>

type_synonym fetcher = "(string \<times> string) list \<Rightarrow> string \<Rightarrow> string \<Rightarrow> string + rawEntry list"

definition convertEntry :: "rawEntry \<Rightarrow> transcriptEntry" where
  "convertEntry entry =
     \<lparr>entry_text = raw_text entry,
      entry_start = raw_offset entry / 1000,
      entry_duration = raw_duration entry / 1000\<rparr>"

definition totalDurationOf :: "transcriptEntry list \<Rightarrow> real" where
  "totalDurationOf transcript =
     (if length transcript > 0
      then entry_start (last transcript) + orZero (entry_duration (last transcript))
      else 0)"

definition addYouTubeVideo :: "fetcher \<Rightarrow> state \<Rightarrow> string \<Rightarrow> string option \<Rightarrow> response \<times> state" where
  "addYouTubeVideo fetch st url lang =
     (let language = (case lang of None \<Rightarrow> ''en'' | Some l \<Rightarrow> l)
      in case extractVideoId url of
           None \<Rightarrow> (InvalidReference url, st)
         | Some videoId \<Rightarrow>
             if mapHas (videos st) videoId then (AlreadyLoaded videoId, st)
             else
               let st1 = st\<lparr>fetchLog := fetchLog st @ [(videoId, language)]\<rparr>
               in case fetch (fetchLog st) videoId language of
                    Inl errorMessage \<Rightarrow> (ProviderError videoId errorMessage, st1)
                  | Inr transcriptData \<Rightarrow>
                      let transcript = map convertEntry transcriptData;
                          videoInfo = getVideoInfo videoId;
                          totalDuration = totalDurationOf transcript;
                          videoData = videoInfo
                            \<lparr>vd_transcript := transcript,
                             vd_language := language,
                             vd_transcriptLength := length transcript,
                             vd_totalDuration := totalDuration\<rparr>
                      in (Loaded videoId (vd_url videoInfo) (length transcript) language
                            totalDuration,
                          st1\<lparr>videos := mapSet (videos st1) videoId videoData\<rparr>))"

definition transcribeFromCommand :: "fetcher \<Rightarrow> state \<Rightarrow> string \<Rightarrow> string option \<Rightarrow> response \<times> state" where
  "transcribeFromCommand fetch st command lang =
     (let language = (case lang of None \<Rightarrow> ''en'' | Some l \<Rightarrow> l)
      in case extractUrlFromCommand command of
           None \<Rightarrow> (UrlNotFound command, st)
         | Some extractedUrl \<Rightarrow> addYouTubeVideo fetch st extractedUrl (Some language))"

subsection \<open>searchTranscripts\<close>

record searchArgs =
  query :: "string option"
  videoIds :: "string list option"
  contextWords :: "int option"

text \<open>The loop over \<open>searchIds\<close>, with \<open>allResults\<close> as accumulator.\<close>

fun collectResults :: "store \<Rightarrow> string \<Rightarrow> int \<Rightarrow> string list \<Rightarrow> searchResult list \<Rightarrow> searchResult list" where
  "collectResults m q cw [] allResults = allResults"
| "collectResults m q cw (videoId # ids) allResults =
     (case mapGet m videoId of
        None \<Rightarrow> collectResults m q cw ids allResults
      | Some videoData \<Rightarrow>
          collectResults m q cw ids
            (allResults @
             map (\<lambda>result. \<lparr>r_videoId = videoId,
                             r_videoUrl = vd_url videoData,
                             r_videoTitle = vd_title videoData,
                             r_match = result\<rparr>)
                 (searchInTranscript (vd_transcript videoData) q cw)))"

text \<open>
  The comparison function given to \<open>sort\<close>. \<open>String.prototype.localeCompare\<close> is the
  collation of the runtime and its locale, not code of the program: it is the parameter
  \<open>lc\<close>.
\<close>

definition compareResults :: "(string \<Rightarrow> string \<Rightarrow> int) \<Rightarrow> searchResult \<Rightarrow> searchResult \<Rightarrow> real" where
  "compareResults lc a b =
     (if r_videoId a = r_videoId b
      then m_timestamp (r_match a) - m_timestamp (r_match b)
      else real_of_int (lc (r_videoId a) (r_videoId b)))"

text \<open>
  \<open>Array.prototype.sort\<close> is stable, and with a consistent comparison function its result
  is the one of any stable sort: here the insertion sort.
\<close>

fun insertBy :: "('a \<Rightarrow> 'a \<Rightarrow> real) \<Rightarrow> 'a \<Rightarrow> 'a list \<Rightarrow> 'a list" where
  "insertBy cmp x [] = [x]"
| "insertBy cmp x (y # ys) = (if cmp x y \<le> 0 then x # y # ys else y # insertBy cmp x ys)"

definition sortBy :: "('a \<Rightarrow> 'a \<Rightarrow> real) \<Rightarrow> 'a list \<Rightarrow> 'a list" where
  "sortBy cmp xs = foldr (insertBy cmp) xs []"

definition searchedVideos :: "string list \<Rightarrow> searched" where
  "searchedVideos searchIds =
     (if length searchIds \<le> 3 then Listed (join '', '' searchIds)
      else Counted (length searchIds))"

definition searchTranscripts :: "(string \<Rightarrow> string \<Rightarrow> int) \<Rightarrow> state \<Rightarrow> searchArgs \<Rightarrow> response \<times> state" where
  "searchTranscripts lc st args =
     (let cw = (case contextWords args of None \<Rightarrow> 5 | Some c \<Rightarrow> c)
      in if mapSize (videos st) = 0 then (EmptyStore, st)
         else case query args of
                None \<Rightarrow> (InvalidQuery, st)
              | Some q \<Rightarrow>
                  if trim q = [] then (InvalidQuery, st)
                  else
                    let searchIds = (case videoIds args of
                                       None \<Rightarrow> mapKeys (videos st)
                                     | Some ids \<Rightarrow> ids);
                        allResults = collectResults (videos st) q cw searchIds []
                    in if length allResults = 0
                       then (NoMatches q (searchedVideos searchIds), st)
                       else (Matches q (sortBy (compareResults lc) allResults), st))"

subsection \<open>listVideos and getVideoTranscript\<close>

definition listVideos :: "state \<Rightarrow> response \<times> state" where
  "listVideos st =
     (if mapSize (videos st) = 0 then (NoVideos, st)
      else (VideoList (mapSize (videos st)) (map snd (videos st)), st))"

text \<open>The remainder \<open>a % b\<close> of JavaScript has the sign of \<open>a\<close>.\<close>

definition jsRem :: "real \<Rightarrow> real \<Rightarrow> real" where
  "jsRem a b = a - b * of_int (if a / b < 0 then \<lceil>a / b\<rceil> else \<lfloor>a / b\<rfloor>)"

text \<open>A line of the text format: minutes, seconds and the text of the entry.\<close>

definition transcriptLine :: "transcriptEntry \<Rightarrow> int \<times> int \<times> string" where
  "transcriptLine entry =
     (\<lfloor>entry_start entry / 60\<rfloor>, \<lfloor>jsRem (entry_start entry) 60\<rfloor>, entry_text entry)"

definition getVideoTranscript :: "state \<Rightarrow> string \<Rightarrow> string option \<Rightarrow> response \<times> state" where
  "getVideoTranscript st videoId fmt =
     (let format = (case fmt of None \<Rightarrow> ''text'' | Some f \<Rightarrow> f)
      in case mapGet (videos st) videoId of
           None \<Rightarrow> (TranscriptNotFound videoId, st)
         | Some videoData \<Rightarrow>
             if format = ''json''
             then (TranscriptJson videoId (vd_transcript videoData), st)
             else (TranscriptText (vd_title videoData) videoId (vd_url videoData)
                     (map transcriptLine (vd_transcript videoData)), st))"

subsection \<open>removeVideo and clearAllVideos\<close>

definition removeVideo :: "state \<Rightarrow> string \<Rightarrow> response \<times> state" where
  "removeVideo st videoId =
     (case mapGet (videos st) videoId of
        None \<Rightarrow> (RemoveNotFound videoId, st)
      | Some videoData \<Rightarrow>
          (Removed (vd_title videoData) videoId,
           st\<lparr>videos := mapDelete (videos st) videoId\<rparr>))"

definition clearAllVideos :: "state \<Rightarrow> response \<times> state" where
  "clearAllVideos st = (Cleared (mapSize (videos st)), st\<lparr>videos := []\<rparr>)"

subsection \<open>Matchers that consume\<close>

text \<open>A matcher never leaves more behind than it was given.\<close>

definition shrinks :: "matcher \<Rightarrow> bool" where
  "shrinks m = (\<forall>s. \<forall>r\<in>set (m s). length r \<le> length s)"

subsection \<open>Identifiers and the shapes of a reference\<close>

text \<open>An identifier: eleven characters of the class \<open>[a-zA-Z0-9_-]\<close>.\<close>

definition validId :: "string \<Rightarrow> bool" where
  "validId v = (length v = 11 \<and> (\<forall>c\<in>set v. isIdChar c))"

text \<open>What stands before the identifier in the three alternatives of the first pattern.\<close>

definition shapes :: "string list" where
  "shapes = [''youtube.com/watch?v='', ''youtu.be/'', ''youtube.com/embed/'']"

text \<open>What \<open>addYouTubeVideo\<close> establishes of the keys of the store: they are identifiers.\<close>

definition keysValid :: "store \<Rightarrow> bool" where
  "keysValid m = list_all validId (mapKeys m)"

subsection \<open>Orders on identifiers\<close>

text \<open>
  What ECMAScript asks of a comparison function for \<open>sort\<close> to be specified, asked of
  \<open>localeCompare\<close> on identifiers: only equal identifiers compare as equal, swapping the
  arguments swaps the sign, and the order is transitive.
\<close>

definition consistentComparator :: "(string \<Rightarrow> string \<Rightarrow> int) \<Rightarrow> bool" where
  "consistentComparator lc =
     ((\<forall>a b. validId a \<longrightarrow> validId b \<longrightarrow> (lc a b = 0) = (a = b))
    \<and> (\<forall>a b. validId a \<longrightarrow> validId b \<longrightarrow> (lc a b < 0) = (0 < lc b a))
    \<and> (\<forall>a b c. validId a \<longrightarrow> validId b \<longrightarrow> validId c \<longrightarrow>
           lc a b < 0 \<longrightarrow> lc b c < 0 \<longrightarrow> lc a c < 0))"

text \<open>
  The order the sorted results are in: by identifier in the order of \<open>lc\<close>, and by
  timestamp among the results of one identifier.
\<close>

definition keyOrder :: "(string \<Rightarrow> string \<Rightarrow> int) \<Rightarrow> searchResult \<Rightarrow> searchResult \<Rightarrow> bool" where
  "keyOrder lc a b =
     (lc (r_videoId a) (r_videoId b) < 0
      \<or> (r_videoId a = r_videoId b \<and> m_timestamp (r_match a) \<le> m_timestamp (r_match b)))"

text \<open>Lexicographic comparison of two sequences of weights.\<close>

fun compareLists :: "nat list \<Rightarrow> nat list \<Rightarrow> int" where
  "compareLists [] [] = 0"
| "compareLists [] (y # ys) = - 1"
| "compareLists (x # xs) [] = 1"
| "compareLists (x # xs) (y # ys) =
     (if x < y then - 1 else if y < x then 1 else compareLists xs ys)"

text \<open>
  The lexicographic order of strings by code unit, which is what \<open><\<close> on strings is in
  JavaScript.
\<close>

definition codeUnitCompare :: "string \<Rightarrow> string \<Rightarrow> int" where
  "codeUnitCompare a b = compareLists (map code a) (map code b)"

text \<open>
  The collation a runtime with ICU gives \<open>localeCompare\<close> in the root locale (and in
  English), on the characters of identifiers: the low line, the hyphen, the digits and
  the letters have primary weights in this order, a letter has the same primary weight
  in both cases, and the lower case letter comes first at the tertiary level. Two
  strings are compared by their primary weights, and by the tertiary ones when those
  agree. Other characters follow by code unit.
\<close>

definition collationPrimary :: "char \<Rightarrow> nat" where
  "collationPrimary c =
     (if code c = 95 then 0
      else if code c = 45 then 1
      else if isDigit c then 2 + (code c - 48)
      else if isLower c then 12 + (code c - 97)
      else if isUpper c then 12 + (code c - 65)
      else 38 + code c)"

definition collationTertiary :: "char \<Rightarrow> nat" where
  "collationTertiary c = (if isUpper c then 1 else 0)"

definition localeCompareRoot :: "string \<Rightarrow> string \<Rightarrow> int" where
  "localeCompareRoot a b =
     (let p = compareLists (map collationPrimary a) (map collationPrimary b)
      in if p \<noteq> 0 then p
         else compareLists (map collationTertiary a) (map collationTertiary b))"

subsection \<open>A sample run\<close>

text \<open>
  A fetch adapter that knows two videos, and the state after adding both to the
  initial state: the first by a short link, the second by its bare identifier.
\<close>

definition demoFetch :: fetcher where
  "demoFetch calls videoId language =
     (if videoId = ''BBBBBBBBBBB''
      then Inr [\<lparr>raw_text = ''A cat sat'', raw_offset = 1500, raw_duration = 2000\<rparr>,
                \<lparr>raw_text = ''on the mat'', raw_offset = 3500, raw_duration = 1000\<rparr>]
      else if videoId = ''aaaaaaaaaaa''
      then Inr [\<lparr>raw_text = ''the cat'', raw_offset = 61000, raw_duration = 500\<rparr>]
      else Inl ''Transcript is disabled on this video'')"

definition demoTranscript :: "transcriptEntry list" where
  "demoTranscript =
     [\<lparr>entry_text = ''a cat'', entry_start = 0, entry_duration = 1\<rparr>,
      \<lparr>entry_text = ''ran fast'', entry_start = 1, entry_duration = 1\<rparr>,
      \<lparr>entry_text = ''A DOG'', entry_start = 2, entry_duration = 1\<rparr>,
      \<lparr>entry_text = ''meow'', entry_start = 3, entry_duration = 1\<rparr>]"

definition demoState :: state where
  "demoState =
     snd (addYouTubeVideo demoFetch
            (snd (addYouTubeVideo demoFetch initialState ''https://youtu.be/BBBBBBBBBBB?t=1'' None))
            ''aaaaaaaaaaa'' (Some ''de''))"

text \<open>
  A second adapter, whose entries for the first video have the same texts and other
  offsets and durations.
\<close>

definition demoFetchLong :: fetcher where
  "demoFetchLong calls videoId language =
     (if videoId = ''BBBBBBBBBBB''
      then Inr [\<lparr>raw_text = ''A cat sat'', raw_offset = 1900, raw_duration = 5000\<rparr>,
                \<lparr>raw_text = ''on the mat'', raw_offset = 3000, raw_duration = 7000\<rparr>]
      else Inl ''Transcript is disabled on this video'')"

text \<open>What a search for \<open>cat\<close> in the sample state returns.\<close>

definition demoResults :: "searchResult list" where
  "demoResults =
     [\<lparr>r_videoId = ''aaaaaaaaaaa'',
       r_videoUrl = ''https://www.youtube.com/watch?v=aaaaaaaaaaa'',
       r_videoTitle = ''Video aaaaaaaaaaa'',
       r_match = \<lparr>m_timestamp = 61, m_duration = 1 / 2, m_text = ''the cat'',
                  m_context = ''the cat'', m_matchIndex = 0\<rparr>\<rparr>,
      \<lparr>r_videoId = ''BBBBBBBBBBB'',
       r_videoUrl = ''https://www.youtube.com/watch?v=BBBBBBBBBBB'',
       r_videoTitle = ''Video BBBBBBBBBBB'',
       r_match = \<lparr>m_timestamp = 3 / 2, m_duration = 2, m_text = ''A cat sat'',
                  m_context = ''A cat sat on the mat'', m_matchIndex = 0\<rparr>\<rparr>]"

section \<open>Properties\<close>

subsection \<open>The store\<close>

lemma map_of_mapDelete: "map_of (mapDelete m k) = (map_of m)(k := None)"
  unfolding mapDelete_def by (induction m) (auto simp: fun_eq_iff)

lemma length_mapDelete:
  "distinct (map fst m) \<Longrightarrow> map_of m k = Some v \<Longrightarrow> Suc (length (mapDelete m k)) = length m"
proof (induction m)
  case Nil
  then show ?case by simp
next
  case (Cons p ps)
  show ?case
  proof (cases "fst p = k")
    case True
    with Cons.prems have "k \<notin> fst ` set ps" by auto
    then have "filter (\<lambda>q. fst q \<noteq> k) ps = ps"
      by (intro filter_True) auto
    with True show ?thesis by (simp add: mapDelete_def)
  next
    case False
    with Cons show ?thesis by (cases p) (simp add: mapDelete_def)
  qed
qed

lemma store_ok_mapDelete: "store_ok m \<Longrightarrow> store_ok (mapDelete m k)"
  unfolding store_ok_def mapDelete_def by (simp add: distinct_map_filter list_all_iff)

lemma store_ok_id: "store_ok m \<Longrightarrow> map_of m k = Some v \<Longrightarrow> vd_id v = k"
  unfolding store_ok_def by (auto simp: list_all_iff dest!: map_of_SomeD)

lemma map_of_mapSet: "map_of (mapSet m k v) = (map_of m)(k \<mapsto> v)"
  by (induction m) (auto simp: fun_eq_iff)

lemma mapSet_new: "map_of m k = None \<Longrightarrow> mapSet m k v = m @ [(k, v)]"
  by (induction m) (auto split: if_splits)

subsection \<open>The sample run\<close>

lemma demo_id_B: "extractVideoId ''https://youtu.be/BBBBBBBBBBB?t=1'' = Some ''BBBBBBBBBBB''"
  by code_simp

lemma demo_id_a: "extractVideoId ''aaaaaaaaaaa'' = Some ''aaaaaaaaaaa''"
  by code_simp

lemma demoState_eq:
  "demoState =
     \<lparr>videos =
        [(''BBBBBBBBBBB'',
          \<lparr>vd_id = ''BBBBBBBBBBB'',
           vd_url = ''https://www.youtube.com/watch?v=BBBBBBBBBBB'',
           vd_title = ''Video BBBBBBBBBBB'', vd_language = ''en'',
           vd_transcript =
             [\<lparr>entry_text = ''A cat sat'', entry_start = 3 / 2, entry_duration = 2\<rparr>,
              \<lparr>entry_text = ''on the mat'', entry_start = 7 / 2, entry_duration = 1\<rparr>],
           vd_transcriptLength = 2, vd_totalDuration = 9 / 2\<rparr>),
         (''aaaaaaaaaaa'',
          \<lparr>vd_id = ''aaaaaaaaaaa'',
           vd_url = ''https://www.youtube.com/watch?v=aaaaaaaaaaa'',
           vd_title = ''Video aaaaaaaaaaa'', vd_language = ''de'',
           vd_transcript =
             [\<lparr>entry_text = ''the cat'', entry_start = 61, entry_duration = 1 / 2\<rparr>],
           vd_transcriptLength = 1, vd_totalDuration = 123 / 2\<rparr>)],
      fetchLog = [(''BBBBBBBBBBB'', ''en''), (''aaaaaaaaaaa'', ''de'')]\<rparr>"
  by (simp add: demoState_def addYouTubeVideo_def demo_id_B demo_id_a initialState_def
        mapHas_def demoFetch_def Let_def getVideoInfo_def convertEntry_def totalDurationOf_def
        orZero_def)

lemma store_ok_demoState: "store_ok (videos demoState)"
  by (simp add: demoState_eq store_ok_def)

text \<open>
  C8. \<open>removeVideo\<close> with an identifier that is not in the store reports NotFound and
  returns the state as it was. With an identifier that is in the store it reports the
  title of the stored record and the identifier (which is the \<open>id\<close> of that record),
  the store afterwards is the store before without the entry of that identifier (every
  other entry is still there, in the same order), it is one record shorter, and the
  identifier is no longer found.
\<close>

theorem removeVideo_spec:
  assumes "store_ok (videos st)"
  shows "(mapGet (videos st) k = None \<longrightarrow> removeVideo st k = (RemoveNotFound k, st))
       \<and> (\<forall>v. mapGet (videos st) k = Some v \<longrightarrow>
            fst (removeVideo st k) = Removed (vd_title v) (vd_id v)
          \<and> vd_id v = k
          \<and> videos (snd (removeVideo st k)) = filter (\<lambda>p. fst p \<noteq> k) (videos st)
          \<and> mapGet (videos (snd (removeVideo st k))) k = None
          \<and> (\<forall>j. j \<noteq> k \<longrightarrow>
                mapGet (videos (snd (removeVideo st k))) j = mapGet (videos st) j)
          \<and> Suc (mapSize (videos (snd (removeVideo st k)))) = mapSize (videos st)
          \<and> store_ok (videos (snd (removeVideo st k)))
          \<and> fetchLog (snd (removeVideo st k)) = fetchLog st)"
proof (intro conjI allI impI)
  assume "mapGet (videos st) k = None"
  then show "removeVideo st k = (RemoveNotFound k, st)"
    by (simp add: removeVideo_def)
next
  fix v assume v: "mapGet (videos st) k = Some v"
  then have m: "map_of (videos st) k = Some v" by (simp add: mapGet_def)
  from assms m show idk: "vd_id v = k" by (rule store_ok_id)
  from v idk show "fst (removeVideo st k) = Removed (vd_title v) (vd_id v)"
    by (simp add: removeVideo_def)
  from v show "videos (snd (removeVideo st k)) = filter (\<lambda>p. fst p \<noteq> k) (videos st)"
    by (simp add: removeVideo_def mapDelete_def)
  from v show "mapGet (videos (snd (removeVideo st k))) k = None"
    by (simp add: removeVideo_def mapGet_def map_of_mapDelete)
  from v show "Suc (mapSize (videos (snd (removeVideo st k)))) = mapSize (videos st)"
    using assms m by (simp add: removeVideo_def mapSize_def store_ok_def length_mapDelete)
  from v show "store_ok (videos (snd (removeVideo st k)))"
    using assms by (simp add: removeVideo_def store_ok_mapDelete)
  from v show "fetchLog (snd (removeVideo st k)) = fetchLog st"
    by (simp add: removeVideo_def)
next
  fix v j assume "mapGet (videos st) k = Some v" "j \<noteq> k"
  then show "mapGet (videos (snd (removeVideo st k))) j = mapGet (videos st) j"
    by (simp add: removeVideo_def mapGet_def map_of_mapDelete)
qed

theorem removeVideo_spec_witness:
  "store_ok (videos demoState)
   \<and> fst (removeVideo demoState ''BBBBBBBBBBB'') = Removed ''Video BBBBBBBBBBB'' ''BBBBBBBBBBB''
   \<and> map fst (videos (snd (removeVideo demoState ''BBBBBBBBBBB''))) = [''aaaaaaaaaaa'']
   \<and> mapSize (videos (snd (removeVideo demoState ''BBBBBBBBBBB''))) = 1
   \<and> removeVideo demoState ''zzzzzzzzzzz'' = (RemoveNotFound ''zzzzzzzzzzz'', demoState)"
  using removeVideo_spec [OF store_ok_demoState, of "''BBBBBBBBBBB''"]
        removeVideo_spec [OF store_ok_demoState, of "''zzzzzzzzzzz''"]
  by (simp add: demoState_eq store_ok_def mapGet_def mapSize_def)

subsection \<open>The query check of searchTranscripts\<close>

lemma trim_Nil_iff: "trim q = [] \<longleftrightarrow> (\<forall>c\<in>set q. isSpace c)"
proof
  assume "trim q = []"
  then have a: "\<forall>x\<in>set (dropWhile isSpace q). isSpace x"
    by (simp add: trim_def dropWhile_eq_Nil_conv)
  have "dropWhile isSpace q = []"
  proof (rule ccontr)
    assume n: "dropWhile isSpace q \<noteq> []"
    then have "\<not> isSpace (hd (dropWhile isSpace q))" by (rule hd_dropWhile)
    moreover from n have "hd (dropWhile isSpace q) \<in> set (dropWhile isSpace q)" by simp
    ultimately show False using a by blast
  qed
  then show "\<forall>c\<in>set q. isSpace c" by (simp add: dropWhile_eq_Nil_conv)
next
  assume "\<forall>c\<in>set q. isSpace c"
  then have d: "dropWhile isSpace q = []" by (simp add: dropWhile_eq_Nil_conv)
  show "trim q = []" unfolding trim_def d by simp
qed

text \<open>
  C7. On a store that is not empty, \<open>searchTranscripts\<close> with a query that is empty or
  consists of white space only answers InvalidQuery, which is neither the report of no
  matches nor a list of matches, and returns the state as it was.
\<close>

theorem searchTranscripts_invalid_query:
  assumes "mapSize (videos st) \<noteq> 0" and "query args = Some q" and "\<forall>c\<in>set q. isSpace c"
  shows "searchTranscripts lc st args = (InvalidQuery, st)
       \<and> (\<forall>x y. fst (searchTranscripts lc st args) \<noteq> NoMatches x y)
       \<and> (\<forall>x rs. fst (searchTranscripts lc st args) \<noteq> Matches x rs)"
  using assms by (simp add: searchTranscripts_def trim_Nil_iff Let_def)

theorem searchTranscripts_invalid_query_witness:
  "mapSize (videos demoState) \<noteq> 0
   \<and> isSpace CHR '' ''
   \<and> searchTranscripts localeCompareRoot demoState
        \<lparr>query = Some ''  '', videoIds = None, contextWords = None\<rparr> = (InvalidQuery, demoState)
   \<and> searchTranscripts localeCompareRoot demoState
        \<lparr>query = Some [], videoIds = Some [''BBBBBBBBBBB''], contextWords = Some 2\<rparr>
        = (InvalidQuery, demoState)"
proof -
  have n: "mapSize (videos demoState) \<noteq> 0" by (simp add: demoState_eq mapSize_def)
  have s: "\<forall>c\<in>set ''  ''. isSpace c" by (simp add: isSpace_def code_def)
  have e: "\<forall>c\<in>set ([] :: string). isSpace c" by simp
  have c: "isSpace CHR '' ''" by (simp add: isSpace_def code_def)
  show ?thesis
    using n c
      searchTranscripts_invalid_query [OF n _ s,
        of "\<lparr>query = Some ''  '', videoIds = None, contextWords = None\<rparr>" localeCompareRoot]
      searchTranscripts_invalid_query [OF n _ e,
        of "\<lparr>query = Some [], videoIds = Some [''BBBBBBBBBBB''], contextWords = Some 2\<rparr>"
           localeCompareRoot]
    by simp
qed

subsection \<open>addYouTubeVideo on a loaded video\<close>

text \<open>
  C3. When the reference resolves to an identifier that is in the store,
  \<open>addYouTubeVideo\<close> reports AlreadyLoaded and returns the state as it was: the fetch
  adapter is not called (the log of its calls is part of the state), the store has the
  same records, and the stored record is the same. This is so in particular for a second
  call after a first call has loaded the identifier.
\<close>

theorem addYouTubeVideo_idempotent:
  assumes "extractVideoId url = Some k"
  shows "(mapHas (videos st) k \<longrightarrow> addYouTubeVideo fetch st url lang = (AlreadyLoaded k, st))
       \<and> (\<forall>url0 lang0 u n l d.
            fst (addYouTubeVideo fetch st url0 lang0) = Loaded k u n l d \<longrightarrow>
            addYouTubeVideo fetch (snd (addYouTubeVideo fetch st url0 lang0)) url lang
              = (AlreadyLoaded k, snd (addYouTubeVideo fetch st url0 lang0)))"
proof (intro conjI allI impI)
  assume "mapHas (videos st) k"
  with assms show "addYouTubeVideo fetch st url lang = (AlreadyLoaded k, st)"
    by (simp add: addYouTubeVideo_def)
next
  fix url0 lang0 u n l d
  assume a: "fst (addYouTubeVideo fetch st url0 lang0) = Loaded k u n l d"
  then have "mapHas (videos (snd (addYouTubeVideo fetch st url0 lang0))) k"
    by (auto simp: addYouTubeVideo_def Let_def mapHas_def map_of_mapSet
             split: option.splits if_splits sum.splits)
  with assms show "addYouTubeVideo fetch (snd (addYouTubeVideo fetch st url0 lang0)) url lang
              = (AlreadyLoaded k, snd (addYouTubeVideo fetch st url0 lang0))"
    by (simp add: addYouTubeVideo_def)
qed

theorem addYouTubeVideo_idempotent_witness:
  "extractVideoId ''https://www.youtube.com/watch?v=aaaaaaaaaaa&t=447s'' = Some ''aaaaaaaaaaa''
   \<and> mapHas (videos demoState) ''aaaaaaaaaaa''
   \<and> addYouTubeVideo demoFetch demoState ''https://www.youtube.com/watch?v=aaaaaaaaaaa&t=447s'' None
       = (AlreadyLoaded ''aaaaaaaaaaa'', demoState)"
proof -
  have r: "extractVideoId ''https://www.youtube.com/watch?v=aaaaaaaaaaa&t=447s'' = Some ''aaaaaaaaaaa''"
    by code_simp
  have h: "mapHas (videos demoState) ''aaaaaaaaaaa''"
    by (simp add: demoState_eq mapHas_def)
  from addYouTubeVideo_idempotent [OF r, of demoState demoFetch None] r h
  show ?thesis by simp
qed

subsection \<open>searchInTranscript\<close>

lemma str_includes_sublist: "str_includes s q = sublist q s"
  by (induction s) (auto simp: sublist_Cons_right)

lemma orZero_id: "orZero x = x"
  by (simp add: orZero_def)

lemma enumerate_nth: "enumerate 0 xs = map (\<lambda>i. (i, xs ! i)) [0..<length xs]"
proof -
  have "enumerate 0 xs = enumerate 0 (map (nth xs) [0..<length xs])"
    by (simp add: map_nth)
  also have "\<dots> = map (\<lambda>i. (i, xs ! i)) [0..<length xs]"
    by (rule enumerate_map_upt)
  finally show ?thesis .
qed

lemma fold_push:
  "fold (\<lambda>(i, e) results. if P e then results @ [f i e] else results) ps acc
     = acc @ map (\<lambda>(i, e). f i e) (filter (\<lambda>(i, e). P e) ps)"
  by (induction ps arbitrary: acc) (auto split: prod.splits)

lemma searchInTranscript_filter:
  "searchInTranscript t q c =
     map (\<lambda>i. makeMatch t c i (t ! i))
         (filter (\<lambda>i. str_includes (toLowerCase (entry_text (t ! i))) (toLowerCase q))
                 [0..<length t])"
  unfolding searchInTranscript_def Let_def fold_push enumerate_nth
  by (simp add: filter_map comp_def)

lemma slice_window:
  assumes "0 \<le> s" "s \<le> e" "e \<le> int (length xs)"
  shows "slice xs s e = map (nth xs) [nat s..<nat e]"
proof -
  from assms have "slice xs s e = take (nat e - nat s) (drop (nat s) xs)"
    by (simp add: slice_def Let_def min_def nat_diff_distrib)
  also have "\<dots> = map (nth xs) [nat s..<nat e]"
    using assms by (intro nth_equalityI) auto
  finally show ?thesis .
qed

lemma makeMatch_window:
  assumes "0 \<le> c" "i < length t"
  shows "makeMatch t c i (t ! i) =
     \<lparr>m_timestamp = entry_start (t ! i),
      m_duration = entry_duration (t ! i),
      m_text = entry_text (t ! i),
      m_context = join '' '' (map (\<lambda>j. entry_text (t ! j))
                     [nat (max 0 (int i - c))..<nat (min (int (length t)) (int i + c + 1))]),
      m_matchIndex = i\<rparr>"
proof -
  have "slice t (max 0 (int i - c)) (min (int (length t)) (int i + c + 1))
      = map (nth t) [nat (max 0 (int i - c))..<nat (min (int (length t)) (int i + c + 1))]"
    using assms by (intro slice_window) auto
  then show ?thesis
    by (simp add: makeMatch_def Let_def orZero_id comp_def)
qed

text \<open>
  C2. For a context window that is not negative, \<open>searchInTranscript\<close> returns one match
  for each index whose entry contains the query, both in lower case, in the order of the
  indices and with nothing left out or merged: the match of index \<open>i\<close> has \<open>i\<close> as its
  \<open>matchIndex\<close>, the start, duration and text of that entry, and as its context the texts
  of the entries from \<open>max(0, i - c)\<close> up to, not including, \<open>min(n, i + c + 1)\<close>, joined
  by one space.
\<close>

theorem searchInTranscript_spec:
  assumes "0 \<le> c"
  shows "searchInTranscript t q c =
     map (\<lambda>i. \<lparr>m_timestamp = entry_start (t ! i),
                m_duration = entry_duration (t ! i),
                m_text = entry_text (t ! i),
                m_context = join '' '' (map (\<lambda>j. entry_text (t ! j))
                     [nat (max 0 (int i - c))..<nat (min (int (length t)) (int i + c + 1))]),
                m_matchIndex = i\<rparr>)
         (filter (\<lambda>i. sublist (toLowerCase q) (toLowerCase (entry_text (t ! i))))
                 [0..<length t])"
  unfolding searchInTranscript_filter str_includes_sublist
  using assms by (intro map_cong refl) (simp add: makeMatch_window)

theorem searchInTranscript_spec_witness:
  "(0::int) \<le> 1
   \<and> length (filter (\<lambda>i. sublist (toLowerCase ''a'') (toLowerCase (entry_text (demoTranscript ! i))))
               [0..<length demoTranscript]) = 3
   \<and> map (\<lambda>m. (m_matchIndex m, m_text m, m_context m)) (searchInTranscript demoTranscript ''a'' 1)
       = [(0, ''a cat'', ''a cat ran fast''),
          (1, ''ran fast'', ''a cat ran fast A DOG''),
          (2, ''A DOG'', ''ran fast A DOG meow'')]"
proof -
  have e: "map (\<lambda>m. (m_matchIndex m, m_text m, m_context m)) (searchInTranscript demoTranscript ''a'' 1)
       = [(0, ''a cat'', ''a cat ran fast''),
          (1, ''ran fast'', ''a cat ran fast A DOG''),
          (2, ''A DOG'', ''ran fast A DOG meow'')]"
    by code_simp
  have "length (searchInTranscript demoTranscript ''a'' 1) = 3"
    using arg_cong [OF e, of length] by simp
  then have "length (filter (\<lambda>i. sublist (toLowerCase ''a'') (toLowerCase (entry_text (demoTranscript ! i))))
               [0..<length demoTranscript]) = 3"
    using searchInTranscript_spec [of 1 demoTranscript "''a''"] by simp
  with e show ?thesis by simp
qed

subsection \<open>Comparison functions\<close>

lemma compareLists_eq0: "compareLists xs ys = 0 \<longleftrightarrow> xs = ys"
  by (induction xs ys rule: compareLists.induct) auto

lemma compareLists_neg: "compareLists xs ys < 0 \<longleftrightarrow> 0 < compareLists ys xs"
  by (induction xs ys rule: compareLists.induct) auto

lemma compareLists_Cons_neg:
  "compareLists (x # xs) (y # ys) < 0 \<longleftrightarrow> x < y \<or> (x = y \<and> compareLists xs ys < 0)"
  by auto

lemma compareLists_trans:
  "compareLists xs ys < 0 \<Longrightarrow> compareLists ys zs < 0 \<Longrightarrow> compareLists xs zs < 0"
proof (induction xs arbitrary: ys zs)
  case Nil
  then show ?case by (cases ys; cases zs) simp_all
next
  case (Cons x xs)
  from Cons.prems obtain y ys' where ys: "ys = y # ys'" by (cases ys) simp_all
  from Cons.prems ys obtain z zs' where zs: "zs = z # zs'" by (cases zs) simp_all
  from Cons.prems have a: "x < y \<or> (x = y \<and> compareLists xs ys' < 0)"
    unfolding ys by (simp only: compareLists_Cons_neg)
  from Cons.prems have b: "y < z \<or> (y = z \<and> compareLists ys' zs' < 0)"
    unfolding ys zs by (simp only: compareLists_Cons_neg)
  from a b Cons.IH [of ys' zs'] have "x < z \<or> (x = z \<and> compareLists xs zs' < 0)"
    by auto
  then show ?case unfolding zs by (simp only: compareLists_Cons_neg)
qed

lemmas coll_defs = collationPrimary_def collationTertiary_def isDigit_def isLower_def isUpper_def Let_def

lemma collation_decode:
  "code c =
     (let p = collationPrimary c
      in if p = 0 then 95 else if p = 1 then 45
         else if p < 12 then p + 46
         else if p < 38 then (if collationTertiary c = 1 then p + 53 else p + 85)
         else p - 38)"
proof -
  consider (u) "code c = 95" | (h) "code c = 45" | (d) "48 \<le> code c \<and> code c \<le> 57"
    | (l) "97 \<le> code c \<and> code c \<le> 122" | (up) "65 \<le> code c \<and> code c \<le> 90"
    | (o) "code c \<noteq> 95 \<and> code c \<noteq> 45 \<and> \<not> (48 \<le> code c \<and> code c \<le> 57)
         \<and> \<not> (97 \<le> code c \<and> code c \<le> 122) \<and> \<not> (65 \<le> code c \<and> code c \<le> 90)"
    by blast
  then show ?thesis
  proof cases
    case u
    then show ?thesis by (simp add: coll_defs)
  next
    case h
    then show ?thesis by (simp add: coll_defs)
  next
    case d
    then have p: "collationPrimary c = code c - 46" by (auto simp: coll_defs)
    from d show ?thesis unfolding p Let_def by auto
  next
    case l
    then have p: "collationPrimary c = code c - 85" "collationTertiary c = 0" by (auto simp: coll_defs)
    from l show ?thesis unfolding p Let_def by auto
  next
    case up
    then have p: "collationPrimary c = code c - 53" "collationTertiary c = 1" by (auto simp: coll_defs)
    from up show ?thesis unfolding p Let_def by auto
  next
    case o
    then have p: "collationPrimary c = 38 + code c" by (auto simp: coll_defs)
    show ?thesis unfolding p Let_def by auto
  qed
qed

lemma collation_inj:
  assumes "collationPrimary c = collationPrimary d" "collationTertiary c = collationTertiary d"
  shows "c = d"
proof -
  have "code c = code d"
    using assms collation_decode [of c] collation_decode [of d] by (simp only:)
  then show "c = d" by (simp add: code_def)
qed

lemma collation_maps_inj:
  "map collationPrimary a = map collationPrimary b \<Longrightarrow>
   map collationTertiary a = map collationTertiary b \<Longrightarrow> a = b"
proof (induction a arbitrary: b)
  case Nil
  then show ?case by simp
next
  case (Cons x xs)
  then show ?case by (cases b) (auto dest: collation_inj)
qed

lemma localeCompareRoot_cases:
  "localeCompareRoot a b =
     (if map collationPrimary a = map collationPrimary b
      then compareLists (map collationTertiary a) (map collationTertiary b)
      else compareLists (map collationPrimary a) (map collationPrimary b))"
  by (simp add: localeCompareRoot_def Let_def compareLists_eq0)

lemma localeCompareRoot_eq0: "(localeCompareRoot a b = 0) = (a = b)"
proof
  assume z: "localeCompareRoot a b = 0"
  have p: "map collationPrimary a = map collationPrimary b"
  proof (rule ccontr)
    assume n: "map collationPrimary a \<noteq> map collationPrimary b"
    with z have "compareLists (map collationPrimary a) (map collationPrimary b) = 0"
      by (simp add: localeCompareRoot_cases)
    with n show False by (simp add: compareLists_eq0)
  qed
  with z have "map collationTertiary a = map collationTertiary b"
    by (simp add: localeCompareRoot_cases compareLists_eq0)
  with p show "a = b" by (rule collation_maps_inj)
next
  assume "a = b"
  then show "localeCompareRoot a b = 0"
    by (simp add: localeCompareRoot_cases compareLists_eq0)
qed

lemma localeCompareRoot_neg: "(localeCompareRoot a b < 0) = (0 < localeCompareRoot b a)"
proof (cases "map collationPrimary a = map collationPrimary b")
  case True
  then show ?thesis
    using compareLists_neg [of "map collationTertiary a" "map collationTertiary b"]
    by (simp add: localeCompareRoot_cases)
next
  case False
  then have "map collationPrimary b \<noteq> map collationPrimary a" by auto
  with False show ?thesis
    using compareLists_neg [of "map collationPrimary a" "map collationPrimary b"]
    by (simp add: localeCompareRoot_cases)
qed

lemma localeCompareRoot_trans:
  assumes ab: "localeCompareRoot a b < 0" and bc: "localeCompareRoot b c < 0"
  shows "localeCompareRoot a c < 0"
proof -
  let ?p = "\<lambda>x. map collationPrimary x" and ?t = "\<lambda>x. map collationTertiary x"
  show ?thesis
  proof (cases "?p a = ?p b")
    case pab: True
    show ?thesis
    proof (cases "?p b = ?p c")
      case True
      with pab have pac: "?p a = ?p c" by simp
      from pab ab have "compareLists (?t a) (?t b) < 0" by (simp add: localeCompareRoot_cases)
      moreover from True bc have "compareLists (?t b) (?t c) < 0"
        by (simp add: localeCompareRoot_cases)
      ultimately have "compareLists (?t a) (?t c) < 0" by (rule compareLists_trans)
      with pac show ?thesis by (simp add: localeCompareRoot_cases)
    next
      case False
      with pab have pac: "?p a \<noteq> ?p c" by simp
      from False bc have "compareLists (?p b) (?p c) < 0" by (simp add: localeCompareRoot_cases)
      with pab have "compareLists (?p a) (?p c) < 0" by simp
      with pac show ?thesis by (simp add: localeCompareRoot_cases)
    qed
  next
    case pab: False
    then have ab': "compareLists (?p a) (?p b) < 0" using ab by (simp add: localeCompareRoot_cases)
    show ?thesis
    proof (cases "?p b = ?p c")
      case True
      with pab have pac: "?p a \<noteq> ?p c" by simp
      from ab' True have "compareLists (?p a) (?p c) < 0" by simp
      with pac show ?thesis by (simp add: localeCompareRoot_cases)
    next
      case False
      then have "compareLists (?p b) (?p c) < 0" using bc by (simp add: localeCompareRoot_cases)
      with ab' have lt: "compareLists (?p a) (?p c) < 0" by (rule compareLists_trans)
      then have "?p a \<noteq> ?p c" using compareLists_eq0 [of "?p a" "?p c"] by auto
      with lt show ?thesis by (simp add: localeCompareRoot_cases)
    qed
  qed
qed

lemma consistent_localeCompareRoot: "consistentComparator localeCompareRoot"
  unfolding consistentComparator_def
  using localeCompareRoot_eq0 localeCompareRoot_neg localeCompareRoot_trans by blast

subsection \<open>The sort\<close>

lemma set_insertBy: "set (insertBy cmp x xs) = insert x (set xs)"
  by (induction xs) auto

lemma mset_insertBy: "mset (insertBy cmp x xs) = add_mset x (mset xs)"
  by (induction xs) auto

lemma mset_sortBy: "mset (sortBy cmp xs) = mset xs"
  unfolding sortBy_def by (induction xs) (auto simp: mset_insertBy)

lemma sorted_insertBy:
  assumes total: "\<And>a b. P a \<Longrightarrow> P b \<Longrightarrow> cmp a b \<le> 0 \<or> cmp b a \<le> 0"
      and trans: "\<And>a b c. P a \<Longrightarrow> P b \<Longrightarrow> P c \<Longrightarrow> cmp a b \<le> 0 \<Longrightarrow> cmp b c \<le> 0 \<Longrightarrow> cmp a c \<le> 0"
  shows "P x \<Longrightarrow> \<forall>y\<in>set xs. P y \<Longrightarrow> sorted_wrt (\<lambda>a b. cmp a b \<le> 0) xs
           \<Longrightarrow> sorted_wrt (\<lambda>a b. cmp a b \<le> 0) (insertBy cmp x xs)"
proof (induction xs)
  case Nil
  then show ?case by simp
next
  case (Cons y ys)
  show ?case
  proof (cases "cmp x y \<le> 0")
    case True
    have "cmp x z \<le> 0" if "z \<in> set ys" for z
    proof (rule trans [of x y z])
      from Cons.prems that show "P x" "P y" "P z" by simp_all
      from True show "cmp x y \<le> 0" .
      from Cons.prems that show "cmp y z \<le> 0" by simp
    qed
    with True Cons.prems show ?thesis by simp
  next
    case False
    from Cons.prems have "P x" "P y" by simp_all
    with False have "cmp y x \<le> 0" using total [of x y] by simp
    with False Cons show ?thesis by (simp add: set_insertBy)
  qed
qed

lemma sorted_sortBy:
  assumes total: "\<And>a b. P a \<Longrightarrow> P b \<Longrightarrow> cmp a b \<le> 0 \<or> cmp b a \<le> 0"
      and trans: "\<And>a b c. P a \<Longrightarrow> P b \<Longrightarrow> P c \<Longrightarrow> cmp a b \<le> 0 \<Longrightarrow> cmp b c \<le> 0 \<Longrightarrow> cmp a c \<le> 0"
  shows "\<forall>y\<in>set xs. P y \<Longrightarrow> sorted_wrt (\<lambda>a b. cmp a b \<le> 0) (sortBy cmp xs)"
proof (induction xs)
  case Nil
  then show ?case by (simp add: sortBy_def)
next
  case (Cons x xs)
  then have s: "sorted_wrt (\<lambda>a b. cmp a b \<le> 0) (sortBy cmp xs)" by simp
  have "set (sortBy cmp xs) = set xs"
    unfolding sortBy_def by (induction xs) (simp_all add: set_insertBy)
  with Cons.prems have p: "\<forall>y\<in>set (sortBy cmp xs). P y" by simp
  from Cons.prems have "P x" by simp
  from sorted_insertBy [of P cmp, OF total trans this p s]
  show ?case by (simp add: sortBy_def)
qed

lemma compareResults_keyOrder:
  assumes "consistentComparator lc" "validId (r_videoId a)" "validId (r_videoId b)"
  shows "compareResults lc a b \<le> 0 \<longleftrightarrow> keyOrder lc a b"
proof (cases "r_videoId a = r_videoId b")
  case True
  moreover from assms have "lc (r_videoId b) (r_videoId b) = 0"
    by (simp add: consistentComparator_def)
  ultimately show ?thesis by (simp add: compareResults_def keyOrder_def)
next
  case False
  with assms have "lc (r_videoId a) (r_videoId b) \<noteq> 0"
    by (simp add: consistentComparator_def)
  with False show ?thesis by (auto simp: compareResults_def keyOrder_def)
qed

lemma keyOrder_total:
  assumes "consistentComparator lc" "validId (r_videoId a)" "validId (r_videoId b)"
  shows "keyOrder lc a b \<or> keyOrder lc b a"
proof (cases "r_videoId a = r_videoId b")
  case True
  then show ?thesis by (auto simp: keyOrder_def)
next
  case False
  with assms have "lc (r_videoId a) (r_videoId b) \<noteq> 0"
    by (simp add: consistentComparator_def)
  moreover from assms have "(lc (r_videoId b) (r_videoId a) < 0) = (0 < lc (r_videoId a) (r_videoId b))"
    by (simp add: consistentComparator_def)
  ultimately show ?thesis by (auto simp: keyOrder_def)
qed

lemma keyOrder_trans:
  assumes c: "consistentComparator lc"
    and v: "validId (r_videoId a)" "validId (r_videoId b)" "validId (r_videoId c)"
    and ab: "keyOrder lc a b" and bc: "keyOrder lc b c"
  shows "keyOrder lc a c"
proof -
  from c v have tr: "lc (r_videoId a) (r_videoId b) < 0 \<Longrightarrow> lc (r_videoId b) (r_videoId c) < 0
      \<Longrightarrow> lc (r_videoId a) (r_videoId c) < 0"
    unfolding consistentComparator_def by blast
  from ab bc show ?thesis
    unfolding keyOrder_def using tr by auto
qed

lemma sorted_sortBy_compareResults:
  assumes c: "consistentComparator lc" and v: "\<forall>r\<in>set xs. validId (r_videoId r)"
  shows "sorted_wrt (keyOrder lc) (sortBy (compareResults lc) xs)"
proof -
  let ?P = "\<lambda>r :: searchResult. validId (r_videoId r)"
  have s: "sorted_wrt (\<lambda>a b. compareResults lc a b \<le> 0) (sortBy (compareResults lc) xs)"
  proof (rule sorted_sortBy [of ?P])
    fix a b assume "?P a" "?P b"
    then show "compareResults lc a b \<le> 0 \<or> compareResults lc b a \<le> 0"
      using keyOrder_total [OF c, of a b] by (simp add: compareResults_keyOrder [OF c])
  next
    fix a b d assume "?P a" "?P b" "?P d" "compareResults lc a b \<le> 0" "compareResults lc b d \<le> 0"
    then show "compareResults lc a d \<le> 0"
      using keyOrder_trans [OF c, of a b d] by (simp add: compareResults_keyOrder [OF c])
  next
    from v show "\<forall>y\<in>set xs. ?P y" .
  qed
  have p: "\<forall>r\<in>set (sortBy (compareResults lc) xs). ?P r"
    using v mset_sortBy [of "compareResults lc" xs] by (metis set_mset_mset)
  show ?thesis
  proof (rule sorted_wrt_mono_rel [OF _ s])
    fix x y
    assume "x \<in> set (sortBy (compareResults lc) xs)" "y \<in> set (sortBy (compareResults lc) xs)"
      "compareResults lc x y \<le> 0"
    with p show "keyOrder lc x y" by (simp add: compareResults_keyOrder [OF c])
  qed
qed

lemma set_sortBy: "set (sortBy cmp xs) = set xs"
  using mset_sortBy [of cmp xs] by (metis set_mset_mset)

lemma sortBy_Nil_iff: "sortBy cmp xs = [] \<longleftrightarrow> xs = []"
  using mset_sortBy [of cmp xs] by (metis mset_zero_iff)

subsection \<open>The candidates of a search\<close>

lemma collectResults_append:
  "collectResults m q cw ids acc = acc @ collectResults m q cw ids []"
proof (induction ids arbitrary: acc)
  case Nil
  then show ?case by simp
next
  case (Cons k ids)
  show ?case
  proof (cases "mapGet m k")
    case None
    then show ?thesis using Cons.IH [of acc] by simp
  next
    case (Some v)
    then show ?thesis
      using Cons.IH [of "acc @ map (\<lambda>result. \<lparr>r_videoId = k, r_videoUrl = vd_url v,
              r_videoTitle = vd_title v, r_match = result\<rparr>)
              (searchInTranscript (vd_transcript v) q cw)"]
            Cons.IH [of "map (\<lambda>result. \<lparr>r_videoId = k, r_videoUrl = vd_url v,
              r_videoTitle = vd_title v, r_match = result\<rparr>)
              (searchInTranscript (vd_transcript v) q cw)"]
      by simp
  qed
qed

lemma collectResults_filter:
  "collectResults m q cw (filter (mapHas m) ids) acc = collectResults m q cw ids acc"
  by (induction ids arbitrary: acc) (auto simp: mapHas_def mapGet_def split: option.splits)

lemma collectResults_ids:
  "r \<in> set (collectResults m q cw ids acc) \<Longrightarrow>
   r \<in> set acc \<or> (r_videoId r \<in> set ids \<and> mapHas m (r_videoId r))"
  by (induction ids arbitrary: acc) (fastforce simp: mapHas_def mapGet_def split: option.splits)+

lemma collectResults_validId:
  assumes "keysValid m" "r \<in> set (collectResults m q cw ids [])"
  shows "validId (r_videoId r)"
proof -
  from collectResults_ids [OF assms(2)] have "mapHas m (r_videoId r)" by simp
  then have "r_videoId r \<in> set (mapKeys m)"
    by (auto simp: mapHas_def mapKeys_def dest: map_of_SomeD intro: rev_image_eqI)
  with assms(1) show ?thesis by (simp add: keysValid_def list_all_iff)
qed

lemma collectResults_concat:
  "collectResults m q cw ids [] = concat (map (\<lambda>k. collectResults m q cw [k] []) ids)"
proof (induction ids)
  case Nil
  then show ?case by simp
next
  case (Cons k ids)
  have "collectResults m q cw (k # ids) [] = collectResults m q cw ids (collectResults m q cw [k] [])"
    by (simp split: option.splits)
  also have "\<dots> = collectResults m q cw [k] [] @ collectResults m q cw ids []"
    by (rule collectResults_append)
  finally show ?case using Cons.IH by simp
qed

lemma mset_collectResults:
  "mset (collectResults m q cw ids [])
     = sum_mset (image_mset (\<lambda>k. mset (collectResults m q cw [k] [])) (mset ids))"
proof -
  have "mset (collectResults m q cw ids [])
      = sum_list (map (\<lambda>k. mset (collectResults m q cw [k] [])) ids)"
    by (simp add: collectResults_concat [of m q cw ids] mset_concat comp_def)
  also have "\<dots> = sum_mset (mset (map (\<lambda>k. mset (collectResults m q cw [k] [])) ids))"
    by (simp only: sum_mset_sum_list)
  finally show ?thesis by simp
qed

lemma mset_collectResults_perm:
  "mset ids' = mset ids \<Longrightarrow>
   mset (collectResults m q cw ids' []) = mset (collectResults m q cw ids [])"
  by (simp add: mset_collectResults)

lemma searchTranscripts_Matches:
  assumes "fst (searchTranscripts lc st args) = Matches q rs"
  shows "mapSize (videos st) \<noteq> 0" and "query args = Some q" and "trim q \<noteq> []"
    and "rs = sortBy (compareResults lc)
                (collectResults (videos st) q (case contextWords args of None \<Rightarrow> 5 | Some c \<Rightarrow> c)
                   (case videoIds args of None \<Rightarrow> mapKeys (videos st) | Some ids \<Rightarrow> ids) [])"
    and "rs \<noteq> []"
  using assms
  by (auto simp: searchTranscripts_def Let_def sortBy_Nil_iff split: if_splits option.splits)

text \<open>
  C9, as amended. On a store that is not empty and with a query that is not empty after
  trimming, \<open>searchTranscripts\<close> with the empty list as \<open>videoIds\<close> searches no video and
  reports that there are no matches, naming no video; only with \<open>videoIds\<close> absent are the
  keys of the store the candidates; and with a list given, every result is of a video of
  that list. (With a query of white space the answer is InvalidQuery, whatever
  \<open>videoIds\<close> is: the counterexample.)
\<close>

theorem searchTranscripts_empty_videoIds:
  assumes "mapSize (videos st) \<noteq> 0" and "query args = Some q" and "trim q \<noteq> []"
  shows "(videoIds args = Some [] \<longrightarrow> searchTranscripts lc st args = (NoMatches q (Listed []), st))
       \<and> (videoIds args = None \<longrightarrow>
            searchTranscripts lc st args
              = searchTranscripts lc st (args\<lparr>videoIds := Some (mapKeys (videos st))\<rparr>))
       \<and> (\<forall>ids rs. videoIds args = Some ids \<longrightarrow> fst (searchTranscripts lc st args) = Matches q rs
            \<longrightarrow> r_videoId ` set rs \<subseteq> set ids)"
proof (intro conjI allI impI)
  assume "videoIds args = Some []"
  with assms show "searchTranscripts lc st args = (NoMatches q (Listed []), st)"
    by (simp add: searchTranscripts_def Let_def searchedVideos_def)
next
  assume "videoIds args = None"
  with assms show "searchTranscripts lc st args
              = searchTranscripts lc st (args\<lparr>videoIds := Some (mapKeys (videos st))\<rparr>)"
    by (simp add: searchTranscripts_def Let_def)
next
  fix ids rs
  assume i: "videoIds args = Some ids" and m: "fst (searchTranscripts lc st args) = Matches q rs"
  let ?cw = "case contextWords args of None \<Rightarrow> 5 | Some c \<Rightarrow> c"
  from assms i m have "rs = sortBy (compareResults lc) (collectResults (videos st) q ?cw ids [])"
    by (simp add: searchTranscripts_def Let_def split: if_splits)
  then have "set rs = set (collectResults (videos st) q ?cw ids [])"
    by (simp add: set_sortBy)
  then show "r_videoId ` set rs \<subseteq> set ids"
    using collectResults_ids [of _ "videos st" q ?cw ids "[]"] by auto
qed

lemma trim_cat: "trim ''cat'' \<noteq> []"
  by (simp add: trim_def isSpace_def code_def)

theorem searchTranscripts_empty_videoIds_witness:
  "mapSize (videos demoState) \<noteq> 0 \<and> trim ''cat'' \<noteq> []
   \<and> searchTranscripts localeCompareRoot demoState
        \<lparr>query = Some ''cat'', videoIds = Some [], contextWords = None\<rparr>
        = (NoMatches ''cat'' (Listed []), demoState)"
proof -
  have n: "mapSize (videos demoState) \<noteq> 0" by (simp add: demoState_eq mapSize_def)
  from searchTranscripts_empty_videoIds [OF n _ trim_cat,
      of "\<lparr>query = Some ''cat'', videoIds = Some [], contextWords = None\<rparr>" localeCompareRoot]
    n trim_cat
  show ?thesis by simp
qed

theorem searchTranscripts_empty_videoIds_counterexample:
  "mapSize (videos demoState) \<noteq> 0
   \<and> fst (searchTranscripts localeCompareRoot demoState
        \<lparr>query = Some ''  '', videoIds = Some [], contextWords = None\<rparr>) = InvalidQuery
   \<and> fst (searchTranscripts localeCompareRoot demoState
        \<lparr>query = Some ''  '', videoIds = Some [], contextWords = None\<rparr>)
       \<noteq> NoMatches ''  '' (searchedVideos [])"
  by (simp add: demoState_eq mapSize_def searchTranscripts_def Let_def trim_def isSpace_def code_def)

text \<open>
  C10. Identifiers of the list that are not in the store are skipped: the results
  collected are those collected for the identifiers of the list that are in the store,
  every result is of a video in the store, and the response is the one for the list
  without the absent identifiers, except that a report of no matches names the videos
  of the list it was given. The state is returned as it was.
\<close>

theorem searchTranscripts_skips_absent:
  "collectResults (videos st) q cw ids [] = collectResults (videos st) q cw (filter (mapHas (videos st)) ids) []
   \<and> (\<forall>r\<in>set (collectResults (videos st) q cw ids []). mapHas (videos st) (r_videoId r))
   \<and> (fst (searchTranscripts lc st (args\<lparr>videoIds := Some ids\<rparr>))
        = fst (searchTranscripts lc st (args\<lparr>videoIds := Some (filter (mapHas (videos st)) ids)\<rparr>))
      \<or> (\<exists>x s s'. fst (searchTranscripts lc st (args\<lparr>videoIds := Some ids\<rparr>)) = NoMatches x s
            \<and> fst (searchTranscripts lc st (args\<lparr>videoIds := Some (filter (mapHas (videos st)) ids)\<rparr>))
                = NoMatches x s'))
   \<and> snd (searchTranscripts lc st (args\<lparr>videoIds := Some ids\<rparr>)) = st"
proof (intro conjI ballI)
  show f: "collectResults (videos st) q cw ids []
      = collectResults (videos st) q cw (filter (mapHas (videos st)) ids) []"
    by (simp add: collectResults_filter)
  show "mapHas (videos st) (r_videoId r)" if "r \<in> set (collectResults (videos st) q cw ids [])" for r
    using collectResults_ids [OF that] by simp
  show "fst (searchTranscripts lc st (args\<lparr>videoIds := Some ids\<rparr>))
        = fst (searchTranscripts lc st (args\<lparr>videoIds := Some (filter (mapHas (videos st)) ids)\<rparr>))
      \<or> (\<exists>x s s'. fst (searchTranscripts lc st (args\<lparr>videoIds := Some ids\<rparr>)) = NoMatches x s
            \<and> fst (searchTranscripts lc st (args\<lparr>videoIds := Some (filter (mapHas (videos st)) ids)\<rparr>))
                = NoMatches x s')"
    by (simp add: searchTranscripts_def Let_def collectResults_filter split: option.splits)
  show "snd (searchTranscripts lc st (args\<lparr>videoIds := Some ids\<rparr>)) = st"
    by (simp add: searchTranscripts_def Let_def split: option.splits)
qed

theorem searchTranscripts_skips_absent_witness:
  "filter (mapHas (videos demoState)) [''zzzzzzzzzzz'', ''aaaaaaaaaaa''] = [''aaaaaaaaaaa'']
   \<and> map r_videoId (collectResults (videos demoState) ''cat'' 5 [''zzzzzzzzzzz'', ''aaaaaaaaaaa''] [])
       = [''aaaaaaaaaaa'']
   \<and> collectResults (videos demoState) ''cat'' 5 [''zzzzzzzzzzz'', ''aaaaaaaaaaa''] []
       = collectResults (videos demoState) ''cat'' 5 [''aaaaaaaaaaa''] []"
proof -
  have f: "filter (mapHas (videos demoState)) [''zzzzzzzzzzz'', ''aaaaaaaaaaa''] = [''aaaaaaaaaaa'']"
    by (simp add: demoState_eq mapHas_def)
  have e: "map r_videoId (collectResults (videos demoState) ''cat'' 5 [''aaaaaaaaaaa''] [])
       = [''aaaaaaaaaaa'']"
    by code_simp
  from searchTranscripts_skips_absent [of demoState "''cat''" 5 "[''zzzzzzzzzzz'', ''aaaaaaaaaaa'']"]
  have "collectResults (videos demoState) ''cat'' 5 [''zzzzzzzzzzz'', ''aaaaaaaaaaa''] []
       = collectResults (videos demoState) ''cat'' 5
           (filter (mapHas (videos demoState)) [''zzzzzzzzzzz'', ''aaaaaaaaaaa'']) []"
    by blast
  with f e show ?thesis by simp
qed

subsection \<open>The order of the results\<close>

lemma demo_search:
  "fst (searchTranscripts localeCompareRoot demoState
          \<lparr>query = Some ''cat'', videoIds = None, contextWords = None\<rparr>) = Matches ''cat'' demoResults"
  by code_simp

text \<open>
  C1, as amended. Whenever \<open>searchTranscripts\<close> returns matches, the keys of the store
  being identifiers and \<open>localeCompare\<close> a consistent comparison function on
  identifiers, the list is ordered by video identifier in the order
  of \<open>localeCompare\<close> and, within one identifier, by ascending timestamp. This holds for
  every list of candidates: for any reordering of the \<open>videoIds\<close> given, the search
  returns the same matches (as a multiset), ordered in the same way. The order of the
  identifiers is the collation of the runtime, which is not the lexicographic order by
  code unit: the counterexample.
\<close>

theorem searchTranscripts_sorted:
  assumes c: "consistentComparator lc" and k: "keysValid (videos st)"
    and m: "fst (searchTranscripts lc st args) = Matches q rs"
  shows "sorted_wrt (keyOrder lc) rs
       \<and> (\<forall>ids ids'. videoIds args = Some ids \<longrightarrow> mset ids' = mset ids \<longrightarrow>
            (\<exists>rs'. fst (searchTranscripts lc st (args\<lparr>videoIds := Some ids'\<rparr>)) = Matches q rs'
                 \<and> sorted_wrt (keyOrder lc) rs' \<and> mset rs' = mset rs))"
proof (intro conjI allI impI)
  let ?cw = "case contextWords args of None \<Rightarrow> 5 | Some c \<Rightarrow> c"
  note f = searchTranscripts_Matches [OF m]
  have v: "\<forall>r\<in>set (collectResults (videos st) q ?cw xs []). validId (r_videoId r)" for xs
    by (rule ballI) (rule collectResults_validId [OF k])
  from f(4) show "sorted_wrt (keyOrder lc) rs"
    by (simp add: sorted_sortBy_compareResults [OF c v])
  fix ids ids' assume i: "videoIds args = Some ids" and p: "mset ids' = mset ids"
  let ?all = "collectResults (videos st) q ?cw ids []"
  let ?all' = "collectResults (videos st) q ?cw ids' []"
  from f(4) i have rs: "rs = sortBy (compareResults lc) ?all" by simp
  with f(5) have "sortBy (compareResults lc) ?all \<noteq> []" by simp
  then have ne: "?all \<noteq> []" by (simp only: sortBy_Nil_iff not_False_eq_True)
  from p have ms: "mset ?all' = mset ?all" by (rule mset_collectResults_perm)
  with ne have ne': "?all' \<noteq> []" by (metis mset_zero_iff)
  from f(1,2,3) ne' have "fst (searchTranscripts lc st (args\<lparr>videoIds := Some ids'\<rparr>))
      = Matches q (sortBy (compareResults lc) ?all')"
    by (simp add: searchTranscripts_def Let_def)
  moreover have "sorted_wrt (keyOrder lc) (sortBy (compareResults lc) ?all')"
    by (rule sorted_sortBy_compareResults [OF c v])
  moreover from ms rs have "mset (sortBy (compareResults lc) ?all') = mset rs"
    by (simp add: mset_sortBy)
  ultimately show "\<exists>rs'. fst (searchTranscripts lc st (args\<lparr>videoIds := Some ids'\<rparr>)) = Matches q rs'
                 \<and> sorted_wrt (keyOrder lc) rs' \<and> mset rs' = mset rs"
    by blast
qed

theorem searchTranscripts_sorted_witness:
  "fst (searchTranscripts localeCompareRoot demoState
          \<lparr>query = Some ''cat'', videoIds = None, contextWords = None\<rparr>) = Matches ''cat'' demoResults
   \<and> keysValid (videos demoState)
   \<and> map r_videoId demoResults = [''aaaaaaaaaaa'', ''BBBBBBBBBBB'']
   \<and> sorted_wrt (keyOrder localeCompareRoot) demoResults"
proof -
  have k: "keysValid (videos demoState)" by code_simp
  from searchTranscripts_sorted [OF consistent_localeCompareRoot k demo_search] demo_search k
  show ?thesis by (simp add: demoResults_def)
qed

theorem searchTranscripts_sorted_counterexample:
  "fst (searchTranscripts localeCompareRoot demoState
          \<lparr>query = Some ''cat'', videoIds = None, contextWords = None\<rparr>) = Matches ''cat'' demoResults
   \<and> map r_videoId demoResults = [''aaaaaaaaaaa'', ''BBBBBBBBBBB'']
   \<and> codeUnitCompare ''BBBBBBBBBBB'' ''aaaaaaaaaaa'' < 0
   \<and> \<not> sorted_wrt (keyOrder codeUnitCompare) demoResults"
proof -
  have "codeUnitCompare ''BBBBBBBBBBB'' ''aaaaaaaaaaa'' < 0" by code_simp
  moreover have "\<not> sorted_wrt (keyOrder codeUnitCompare) demoResults" by code_simp
  ultimately show ?thesis using demo_search by (simp add: demoResults_def)
qed

subsection \<open>Ingestion and retrieval\<close>

lemma mapGet_mapSet: "mapGet (mapSet m k v) k = Some v"
  by (simp add: mapGet_def map_of_mapSet)

text \<open>
  C4, as amended. After \<open>addYouTubeVideo\<close> has loaded a video from the entries of the
  adapter, the stored transcript has one entry for each entry of the adapter, in the
  same order, with the same text and with start and duration the offset and duration of
  the adapter divided by 1000. \<open>getVideoTranscript\<close> in the format \<open>json\<close> returns exactly
  these entries. In any other format (\<open>text\<close> is the default) it returns one line for
  each entry, in the same order, with the text of the entry and its start as whole
  minutes and whole seconds, and without its duration. (Two ingestions that differ in
  their durations and in the fractions of their offsets are returned alike in the text
  format: the counterexample.)
\<close>

theorem getVideoTranscript_roundtrip:
  assumes "fst (addYouTubeVideo fetch st url lang) = Loaded k u n l d"
  shows "\<exists>raw. fetch (fetchLog st) k l = Inr raw
       \<and> n = length raw
       \<and> map_option vd_transcript (mapGet (videos (snd (addYouTubeVideo fetch st url lang))) k)
           = Some (map (\<lambda>e. \<lparr>entry_text = raw_text e, entry_start = raw_offset e / 1000,
                               entry_duration = raw_duration e / 1000\<rparr>) raw)
       \<and> getVideoTranscript (snd (addYouTubeVideo fetch st url lang)) k (Some ''json'')
           = (TranscriptJson k
                (map (\<lambda>e. \<lparr>entry_text = raw_text e, entry_start = raw_offset e / 1000,
                            entry_duration = raw_duration e / 1000\<rparr>) raw),
              snd (addYouTubeVideo fetch st url lang))
       \<and> (fmt \<noteq> Some ''json'' \<longrightarrow>
            getVideoTranscript (snd (addYouTubeVideo fetch st url lang)) k fmt
              = (TranscriptText (''Video '' @ k) k (''https://www.youtube.com/watch?v='' @ k)
                   (map (\<lambda>e. (\<lfloor>raw_offset e / 1000 / 60\<rfloor>, \<lfloor>jsRem (raw_offset e / 1000) 60\<rfloor>, raw_text e)) raw),
                 snd (addYouTubeVideo fetch st url lang)))"
proof -
  let ?l = "case lang of None \<Rightarrow> ''en'' | Some x \<Rightarrow> x"
  from assms have id: "extractVideoId url = Some k" and nh: "\<not> mapHas (videos st) k" and l: "l = ?l"
    by (auto simp: addYouTubeVideo_def Let_def split: option.splits if_splits sum.splits)
  from assms id nh obtain raw where raw: "fetch (fetchLog st) k ?l = Inr raw"
    by (cases "fetch (fetchLog st) k ?l") (auto simp: addYouTubeVideo_def Let_def)
  let ?t = "map convertEntry raw"
  let ?vd = "(getVideoInfo k)\<lparr>vd_transcript := ?t, vd_language := ?l,
               vd_transcriptLength := length ?t, vd_totalDuration := totalDurationOf ?t\<rparr>"
  have st': "snd (addYouTubeVideo fetch st url lang)
      = st\<lparr>fetchLog := fetchLog st @ [(k, ?l)], videos := mapSet (videos st) k ?vd\<rparr>"
    using id nh raw by (simp add: addYouTubeVideo_def Let_def)
  have g: "mapGet (videos (snd (addYouTubeVideo fetch st url lang))) k = Some ?vd"
    unfolding st' by (simp add: mapGet_mapSet)
  have conv: "?t = map (\<lambda>e. \<lparr>entry_text = raw_text e, entry_start = raw_offset e / 1000,
                               entry_duration = raw_duration e / 1000\<rparr>) raw"
    by (simp add: convertEntry_def)
  have n: "n = length raw"
    using assms id nh raw by (simp add: addYouTubeVideo_def Let_def)
  have j: "getVideoTranscript (snd (addYouTubeVideo fetch st url lang)) k (Some ''json'')
      = (TranscriptJson k ?t, snd (addYouTubeVideo fetch st url lang))"
    by (simp add: getVideoTranscript_def g)
  have t: "getVideoTranscript (snd (addYouTubeVideo fetch st url lang)) k fmt
      = (TranscriptText (''Video '' @ k) k (''https://www.youtube.com/watch?v='' @ k)
           (map transcriptLine ?t), snd (addYouTubeVideo fetch st url lang))"
    if "fmt \<noteq> Some ''json''"
    using that by (cases fmt) (simp_all add: getVideoTranscript_def g getVideoInfo_def)
  have lines: "map transcriptLine ?t
      = map (\<lambda>e. (\<lfloor>raw_offset e / 1000 / 60\<rfloor>, \<lfloor>jsRem (raw_offset e / 1000) 60\<rfloor>, raw_text e)) raw"
    by (simp add: transcriptLine_def convertEntry_def)
  show ?thesis
  proof (intro exI [of _ raw] conjI impI)
    show "fetch (fetchLog st) k l = Inr raw" using raw l by simp
    show "n = length raw" by (rule n)
    show "map_option vd_transcript (mapGet (videos (snd (addYouTubeVideo fetch st url lang))) k)
           = Some (map (\<lambda>e. \<lparr>entry_text = raw_text e, entry_start = raw_offset e / 1000,
                               entry_duration = raw_duration e / 1000\<rparr>) raw)"
      unfolding conv [symmetric] g by simp
    show "getVideoTranscript (snd (addYouTubeVideo fetch st url lang)) k (Some ''json'')
           = (TranscriptJson k
                (map (\<lambda>e. \<lparr>entry_text = raw_text e, entry_start = raw_offset e / 1000,
                            entry_duration = raw_duration e / 1000\<rparr>) raw),
              snd (addYouTubeVideo fetch st url lang))"
      unfolding conv [symmetric] by (rule j)
    assume "fmt \<noteq> Some ''json''"
    then show "getVideoTranscript (snd (addYouTubeVideo fetch st url lang)) k fmt
              = (TranscriptText (''Video '' @ k) k (''https://www.youtube.com/watch?v='' @ k)
                   (map (\<lambda>e. (\<lfloor>raw_offset e / 1000 / 60\<rfloor>, \<lfloor>jsRem (raw_offset e / 1000) 60\<rfloor>, raw_text e)) raw),
                 snd (addYouTubeVideo fetch st url lang))"
      unfolding lines [symmetric] by (rule t)
  qed
qed

theorem getVideoTranscript_roundtrip_witness:
  "fst (addYouTubeVideo demoFetch initialState ''https://youtu.be/BBBBBBBBBBB?t=1'' None)
     = Loaded ''BBBBBBBBBBB'' ''https://www.youtube.com/watch?v=BBBBBBBBBBB'' 2 ''en'' (9 / 2)
   \<and> fst (getVideoTranscript
            (snd (addYouTubeVideo demoFetch initialState ''https://youtu.be/BBBBBBBBBBB?t=1'' None))
            ''BBBBBBBBBBB'' (Some ''json''))
       = TranscriptJson ''BBBBBBBBBBB''
           [\<lparr>entry_text = ''A cat sat'', entry_start = 1500 / 1000, entry_duration = 2000 / 1000\<rparr>,
            \<lparr>entry_text = ''on the mat'', entry_start = 3500 / 1000, entry_duration = 1000 / 1000\<rparr>]"
proof -
  have a: "fst (addYouTubeVideo demoFetch initialState ''https://youtu.be/BBBBBBBBBBB?t=1'' None)
     = Loaded ''BBBBBBBBBBB'' ''https://www.youtube.com/watch?v=BBBBBBBBBBB'' 2 ''en'' (9 / 2)"
    by (simp add: addYouTubeVideo_def demo_id_B initialState_def mapHas_def demoFetch_def Let_def
          getVideoInfo_def convertEntry_def totalDurationOf_def orZero_def)
  from getVideoTranscript_roundtrip [OF a] obtain raw
    where r: "demoFetch (fetchLog initialState) ''BBBBBBBBBBB'' ''en'' = Inr raw"
      and j: "getVideoTranscript
                (snd (addYouTubeVideo demoFetch initialState ''https://youtu.be/BBBBBBBBBBB?t=1'' None))
                ''BBBBBBBBBBB'' (Some ''json'')
              = (TranscriptJson ''BBBBBBBBBBB''
                  (map (\<lambda>e. \<lparr>entry_text = raw_text e, entry_start = raw_offset e / 1000,
                              entry_duration = raw_duration e / 1000\<rparr>) raw),
                 snd (addYouTubeVideo demoFetch initialState ''https://youtu.be/BBBBBBBBBBB?t=1'' None))"
    by blast
  from r have "raw = [\<lparr>raw_text = ''A cat sat'', raw_offset = 1500, raw_duration = 2000\<rparr>,
                      \<lparr>raw_text = ''on the mat'', raw_offset = 3500, raw_duration = 1000\<rparr>]"
    by (simp add: demoFetch_def)
  with a j show ?thesis by simp
qed

theorem getVideoTranscript_roundtrip_counterexample:
  "fst (addYouTubeVideo demoFetch initialState ''BBBBBBBBBBB'' None)
     = Loaded ''BBBBBBBBBBB'' ''https://www.youtube.com/watch?v=BBBBBBBBBBB'' 2 ''en'' (9 / 2)
   \<and> fst (addYouTubeVideo demoFetchLong initialState ''BBBBBBBBBBB'' None)
     = Loaded ''BBBBBBBBBBB'' ''https://www.youtube.com/watch?v=BBBBBBBBBBB'' 2 ''en'' 10
   \<and> demoFetch [] ''BBBBBBBBBBB'' ''en'' \<noteq> demoFetchLong [] ''BBBBBBBBBBB'' ''en''
   \<and> fst (getVideoTranscript (snd (addYouTubeVideo demoFetch initialState ''BBBBBBBBBBB'' None))
            ''BBBBBBBBBBB'' None)
       = TranscriptText ''Video BBBBBBBBBBB'' ''BBBBBBBBBBB''
           ''https://www.youtube.com/watch?v=BBBBBBBBBBB''
           [(0, 1, ''A cat sat''), (0, 3, ''on the mat'')]
   \<and> fst (getVideoTranscript (snd (addYouTubeVideo demoFetchLong initialState ''BBBBBBBBBBB'' None))
            ''BBBBBBBBBBB'' None)
       = TranscriptText ''Video BBBBBBBBBBB'' ''BBBBBBBBBBB''
           ''https://www.youtube.com/watch?v=BBBBBBBBBBB''
           [(0, 1, ''A cat sat''), (0, 3, ''on the mat'')]"
proof -
  have "fst (addYouTubeVideo demoFetch initialState ''BBBBBBBBBBB'' None)
     = Loaded ''BBBBBBBBBBB'' ''https://www.youtube.com/watch?v=BBBBBBBBBBB'' 2 ''en'' (9 / 2)"
    by code_simp
  moreover have "fst (addYouTubeVideo demoFetchLong initialState ''BBBBBBBBBBB'' None)
     = Loaded ''BBBBBBBBBBB'' ''https://www.youtube.com/watch?v=BBBBBBBBBBB'' 2 ''en'' 10"
    by code_simp
  moreover have "demoFetch [] ''BBBBBBBBBBB'' ''en'' \<noteq> demoFetchLong [] ''BBBBBBBBBBB'' ''en''"
    by (simp add: demoFetch_def demoFetchLong_def)
  moreover have "fst (getVideoTranscript (snd (addYouTubeVideo demoFetch initialState ''BBBBBBBBBBB'' None))
            ''BBBBBBBBBBB'' None)
       = TranscriptText ''Video BBBBBBBBBBB'' ''BBBBBBBBBBB''
           ''https://www.youtube.com/watch?v=BBBBBBBBBBB''
           [(0, 1, ''A cat sat''), (0, 3, ''on the mat'')]"
    by code_simp
  moreover have "fst (getVideoTranscript (snd (addYouTubeVideo demoFetchLong initialState ''BBBBBBBBBBB'' None))
            ''BBBBBBBBBBB'' None)
       = TranscriptText ''Video BBBBBBBBBBB'' ''BBBBBBBBBBB''
           ''https://www.youtube.com/watch?v=BBBBBBBBBBB''
           [(0, 1, ''A cat sat''), (0, 3, ''on the mat'')]"
    by code_simp
  ultimately show ?thesis by (intro conjI)
qed

subsection \<open>What a matcher leaves behind\<close>

lemma set_lit: "set (lit p s) = {r. s = p @ r}"
  by (auto simp: lit_def prefix_def)

lemma set_seq: "set (seq m1 m2 s) = (\<Union>r\<in>set (m1 s). set (m2 r))"
  by (simp add: seq_def)

lemma set_alt: "set (alt m1 m2 s) = set (m1 s) \<union> set (m2 s)"
  by (simp add: alt_def)

lemma set_opt: "set (opt m s) = set (m s) \<union> {s}"
  by (simp add: opt_def)

lemma set_repeatN: "set (repeatN P n s) = {r. \<exists>a. s = a @ r \<and> length a = n \<and> (\<forall>c\<in>set a. P c)}"
proof -
  have "\<exists>a. s = a @ drop n s \<and> length a = n \<and> (\<forall>c\<in>set a. P c)"
    if "n \<le> length s" "list_all P (take n s)"
    using that by (intro exI [of _ "take n s"]) (simp add: list_all_iff)
  then show ?thesis
    by (auto simp: repeatN_def list_all_iff)
qed

lemma take_le_takeWhile:
  assumes "j \<le> length (takeWhile P s)"
  shows "\<forall>c\<in>set (take j s). P c"
proof -
  have "take j s = take j (take (length (takeWhile P s)) s)"
    using assms by (simp add: min_def)
  also have "\<dots> = take j (takeWhile P s)"
    using takeWhile_eq_take [of P s] by simp
  finally have "set (take j s) \<subseteq> set (takeWhile P s)"
    by (simp add: set_take_subset)
  then show ?thesis by (auto dest: set_takeWhileD)
qed

lemma set_star: "set (star P s) = {r. \<exists>a. s = a @ r \<and> (\<forall>c\<in>set a. P c)}"
proof (intro set_eqI iffI)
  fix r assume "r \<in> set (star P s)"
  then have "r \<in> (\<lambda>j. drop j s) ` {0..<Suc (length (takeWhile P s))}"
    by (simp add: star_def del: upt_Suc)
  then obtain j where j: "j \<le> length (takeWhile P s)" "r = drop j s"
    by (auto simp: less_Suc_eq_le)
  from j(1) have "\<forall>c\<in>set (take j s). P c" by (rule take_le_takeWhile)
  with j(2) have "s = take j s @ r \<and> (\<forall>c\<in>set (take j s). P c)" by simp
  then show "r \<in> {r. \<exists>a. s = a @ r \<and> (\<forall>c\<in>set a. P c)}" by blast
next
  fix r assume "r \<in> {r. \<exists>a. s = a @ r \<and> (\<forall>c\<in>set a. P c)}"
  then obtain a where a: "s = a @ r" "\<forall>c\<in>set a. P c" by auto
  then have "length a \<le> length (takeWhile P s)"
    by (simp add: takeWhile_append2)
  with a have "r \<in> (\<lambda>j. drop j s) ` {0..<Suc (length (takeWhile P s))}"
    by (intro image_eqI [of _ _ "length a"]) auto
  then show "r \<in> set (star P s)"
    by (simp add: star_def del: upt_Suc)
qed

lemma set_matchesAt:
  "set (matchesAt (b, g, a) s) =
     {(w, v). \<exists>r1\<in>set (b s). \<exists>r2\<in>set (g r1). \<exists>r3\<in>set (a r2).
                w = take (length s - length r3) s \<and> v = take (length r1 - length r2) r1}"
  by (auto simp: matchesAt_def)


lemma execAt_Some: "execAt p s = Some x \<Longrightarrow> x \<in> set (matchesAt p s)"
  by (auto simp: execAt_def split: list.splits)

lemma exec_None: "exec p s = None \<longleftrightarrow> (\<forall>j\<le>length s. execAt p (drop j s) = None)"
proof (induction s)
  case Nil
  then show ?case by simp
next
  case (Cons c cs)
  have "(\<forall>j\<le>length (c # cs). execAt p (drop j (c # cs)) = None)
      \<longleftrightarrow> execAt p (c # cs) = None \<and> (\<forall>j\<le>length cs. execAt p (drop j cs) = None)"
    (is "?L \<longleftrightarrow> ?R")
  proof
    assume l: ?L
    then have "execAt p (drop 0 (c # cs)) = None" by blast
    moreover have "execAt p (drop j cs) = None" if "j \<le> length cs" for j
      using l [rule_format, of "Suc j"] that by simp
    ultimately show ?R by simp
  next
    assume r: ?R
    show ?L
    proof (intro allI impI)
      fix j assume "j \<le> length (c # cs)"
      with r show "execAt p (drop j (c # cs)) = None" by (cases j) auto
    qed
  qed
  with Cons show ?case by (simp split: option.splits)
qed

lemma exec_Some:
  "exec p s = Some x \<Longrightarrow>
   \<exists>j\<le>length s. execAt p (drop j s) = Some x \<and> (\<forall>i<j. execAt p (drop i s) = None)"
proof (induction s)
  case Nil
  then show ?case by simp
next
  case (Cons c cs)
  show ?case
  proof (cases "execAt p (c # cs)")
    case None
    with Cons.prems have "exec p cs = Some x" by simp
    from Cons.IH [OF this] obtain j where j: "j \<le> length cs" "execAt p (drop j cs) = Some x"
      "\<forall>i<j. execAt p (drop i cs) = None" by blast
    have "\<forall>i<Suc j. execAt p (drop i (c # cs)) = None"
    proof (intro allI impI)
      fix i assume "i < Suc j"
      with None j(3) show "execAt p (drop i (c # cs)) = None" by (cases i) auto
    qed
    with j(1,2) show ?thesis by (intro exI [of _ "Suc j"]) simp
  next
    case (Some y)
    with Cons.prems have "execAt p (drop 0 (c # cs)) = Some x" by simp
    then show ?thesis by (intro exI [of _ 0]) simp
  qed
qed





lemma exec_Some_decomp:
  assumes "exec p url = Some x"
  shows "\<exists>pre s. url = pre @ s \<and> x \<in> set (matchesAt p s)"
proof -
  from exec_Some [OF assms] obtain j where "execAt p (drop j url) = Some x" by blast
  then have "x \<in> set (matchesAt p (drop j url))" by (rule execAt_Some)
  moreover have "url = take j url @ drop j url" by simp
  ultimately show ?thesis by blast
qed

lemma matchesAtI:
  "r1 \<in> set (b s) \<Longrightarrow> r2 \<in> set (g r1) \<Longrightarrow> r3 \<in> set (a r2) \<Longrightarrow>
   (take (length s - length r3) s, take (length r1 - length r2) r1) \<in> set (matchesAt (b, g, a) s)"
  unfolding set_matchesAt by blast

lemma matchesAt_group:
  "(w, v) \<in> set (matchesAt (b, repeatN P n, a) s) \<longleftrightarrow>
     (\<exists>rest r3. v @ rest \<in> set (b s) \<and> length v = n \<and> (\<forall>c\<in>set v. P c)
        \<and> r3 \<in> set (a rest) \<and> w = take (length s - length r3) s)"
  (is "?L \<longleftrightarrow> ?R")
proof
  assume ?L
  then obtain r1 r2 r3 where r: "r1 \<in> set (b s)" "r2 \<in> set (repeatN P n r1)" "r3 \<in> set (a r2)"
    "w = take (length s - length r3) s" "v = take (length r1 - length r2) r1"
    unfolding set_matchesAt by blast
  from r(2) obtain x where x: "r1 = x @ r2" "length x = n" "\<forall>c\<in>set x. P c"
    unfolding set_repeatN by blast
  with r(5) have "v = x" by simp
  with x r show ?R by (intro exI [of _ r2] exI [of _ r3]) simp
next
  assume ?R
  then obtain rest r3 where r: "v @ rest \<in> set (b s)" "length v = n" "\<forall>c\<in>set v. P c"
    "r3 \<in> set (a rest)" "w = take (length s - length r3) s" by blast
  from r(2,3) have "rest \<in> set (repeatN P n (v @ rest))" unfolding set_repeatN by blast
  from matchesAtI [of "v @ rest" b s rest "repeatN P n" r3 a, OF r(1) this r(4)] r(5)
  show ?L by simp
qed

lemma matchesAt_alt3:
  "(w, v) \<in> set (matchesAt (alt (lit A) (alt (lit B) (lit C)), repeatN P n, lit []) s) \<longleftrightarrow>
     (\<exists>L\<in>{A, B, C}. \<exists>rest. s = L @ v @ rest \<and> length v = n \<and> (\<forall>c\<in>set v. P c) \<and> w = L @ v)"
  unfolding matchesAt_group set_alt set_lit by auto

lemma take_consumed: "s = x @ r \<Longrightarrow> take (length s - length r) s = x"
  by simp

lemma set_lit_star_lit:
  "r \<in> set (seq (lit W) (seq (star Q) (lit V)) s) \<longleftrightarrow>
     (\<exists>params. s = W @ params @ V @ r \<and> (\<forall>c\<in>set params. Q c))"
  by (auto simp: set_seq set_lit set_star)

lemma matchesAt_star:
  "(w, v) \<in> set (matchesAt (seq (lit W) (seq (star Q) (lit V)), repeatN P n, lit []) s) \<longleftrightarrow>
     (\<exists>params rest. s = W @ params @ V @ v @ rest \<and> (\<forall>c\<in>set params. Q c)
        \<and> length v = n \<and> (\<forall>c\<in>set v. P c) \<and> w = W @ params @ V @ v)"
  (is "?L \<longleftrightarrow> ?R")
proof
  assume ?L
  then obtain rest params where r: "s = W @ params @ V @ v @ rest" "\<forall>c\<in>set params. Q c"
    "length v = n" "\<forall>c\<in>set v. P c" "w = take (length s - length rest) s"
    unfolding matchesAt_group set_lit_star_lit set_lit by auto
  from r(1) have "s = (W @ params @ V @ v) @ rest" by simp
  then have "take (length s - length rest) s = W @ params @ V @ v" by (rule take_consumed)
  with r show ?R by blast
next
  assume ?R
  then obtain params rest where r: "s = W @ params @ V @ v @ rest" "\<forall>c\<in>set params. Q c"
    "length v = n" "\<forall>c\<in>set v. P c" "w = W @ params @ V @ v" by blast
  from r(1) have "s = (W @ params @ V @ v) @ rest" by simp
  then have "take (length s - length rest) s = W @ params @ V @ v" by (rule take_consumed)
  with r have "v @ rest \<in> set (seq (lit W) (seq (star Q) (lit V)) s) \<and> length v = n
      \<and> (\<forall>c\<in>set v. P c) \<and> rest \<in> set (lit [] rest) \<and> w = take (length s - length rest) s"
    unfolding set_lit_star_lit set_lit by auto
  then show ?L unfolding matchesAt_group by blast
qed

lemma matchesAt_idPattern1:
  "(w, v) \<in> set (matchesAt idPattern1 s) \<longleftrightarrow>
     (\<exists>L\<in>set shapes. \<exists>rest. s = L @ v @ rest \<and> validId v \<and> w = L @ v)"
  unfolding idPattern1_def matchesAt_alt3 shapes_def validId_def by simp

lemma matchesAt_idPattern2:
  "(w, v) \<in> set (matchesAt idPattern2 s) \<longleftrightarrow>
     (\<exists>params rest. s = ''youtube.com/watch?'' @ params @ ''v='' @ v @ rest
        \<and> (\<forall>c\<in>set params. notLineTerminator c) \<and> validId v
        \<and> w = ''youtube.com/watch?'' @ params @ ''v='' @ v)"
  unfolding idPattern2_def matchesAt_star validId_def by simp

lemma isBareId_validId: "isBareId url = validId url"
  by (auto simp: isBareId_def set_repeatN validId_def)

lemma extractVideoId_cases:
  "extractVideoId url =
     (case exec idPattern1 url of
        Some m \<Rightarrow> Some (snd m)
      | None \<Rightarrow> (case exec idPattern2 url of
                   Some m \<Rightarrow> Some (snd m)
                 | None \<Rightarrow> if validId url then Some url else None))"
  by (simp add: extractVideoId_def idPatterns_def isBareId_validId split: option.splits)



lemma exec_idPattern1_Some:
  assumes "exec idPattern1 url = Some m"
  shows "validId (snd m) \<and> (\<exists>pre L rest. L \<in> set shapes \<and> url = pre @ L @ snd m @ rest)"
proof -
  from exec_Some_decomp [OF assms] obtain pre s where u: "url = pre @ s"
    and m: "m \<in> set (matchesAt idPattern1 s)" by blast
  from m have "(fst m, snd m) \<in> set (matchesAt idPattern1 s)" by simp
  then obtain L rest where "L \<in> set shapes" "s = L @ snd m @ rest" "validId (snd m)"
    unfolding matchesAt_idPattern1 by blast
  with u show ?thesis by blast
qed

lemma exec_idPattern2_Some:
  assumes "exec idPattern2 url = Some m"
  shows "validId (snd m) \<and> (\<exists>pre params rest. (\<forall>c\<in>set params. notLineTerminator c)
           \<and> url = pre @ ''youtube.com/watch?'' @ params @ ''v='' @ snd m @ rest)"
proof -
  from exec_Some_decomp [OF assms] obtain pre s where u: "url = pre @ s"
    and m: "m \<in> set (matchesAt idPattern2 s)" by blast
  from m have "(fst m, snd m) \<in> set (matchesAt idPattern2 s)" by simp
  then obtain params rest where "s = ''youtube.com/watch?'' @ params @ ''v='' @ snd m @ rest"
    "\<forall>c\<in>set params. notLineTerminator c" "validId (snd m)"
    unfolding matchesAt_idPattern2 by blast
  with u show ?thesis by blast
qed








subsection \<open>The patterns of extractVideoId\<close>













lemma extractVideoId_sound:
  assumes "extractVideoId url = Some v"
  shows "validId v \<and> (v = url
           \<or> (\<exists>pre L rest. L \<in> set shapes \<and> url = pre @ L @ v @ rest)
           \<or> (\<exists>pre params rest. (\<forall>c\<in>set params. notLineTerminator c)
                 \<and> url = pre @ ''youtube.com/watch?'' @ params @ ''v='' @ v @ rest))"
proof (cases "exec idPattern1 url")
  case (Some m)
  with assms have "snd m = v" by (simp add: extractVideoId_cases)
  with exec_idPattern1_Some [OF Some] show ?thesis by blast
next
  case None
  show ?thesis
  proof (cases "exec idPattern2 url")
    case (Some m)
    with None assms have "snd m = v" by (simp add: extractVideoId_cases)
    with exec_idPattern2_Some [OF Some] show ?thesis by blast
  next
    case n2: None
    with None assms show ?thesis by (simp add: extractVideoId_cases split: if_splits)
  qed
qed


subsection \<open>The patterns of extractUrlFromCommand\<close>

lemma shrinks_lit: "shrinks (lit p)"
  by (auto simp: shrinks_def set_lit)

lemma shrinks_star: "shrinks (star P)"
  by (auto simp: shrinks_def set_star)

lemma shrinks_seq: "shrinks m1 \<Longrightarrow> shrinks m2 \<Longrightarrow> shrinks (seq m1 m2)"
  unfolding shrinks_def set_seq by (meson UN_E le_trans)

lemma shrinks_alt: "shrinks m1 \<Longrightarrow> shrinks m2 \<Longrightarrow> shrinks (alt m1 m2)"
  by (auto simp: shrinks_def set_alt)

lemma shrinks_opt: "shrinks m \<Longrightarrow> shrinks (opt m)"
  by (auto simp: shrinks_def set_opt)

lemma len_lit_seq:
  assumes "shrinks m" "r \<in> set (seq (lit (c # p)) m s)"
  shows "length r + 1 \<le> length s"
proof -
  from assms(2) obtain r0 where "s = (c # p) @ r0" "r \<in> set (m r0)"
    by (auto simp: set_seq set_lit)
  moreover from this assms(1) have "length r \<le> length r0"
    unfolding shrinks_def by blast
  ultimately show ?thesis by simp
qed

lemma len_before1:
  assumes "r \<in> set (fst urlPattern1 s)"
  shows "length r + 1 \<le> length s"
proof -
  let ?m = "seq (opt (lit ''s'')) (seq (lit ''://'')
        (seq (opt (alt (lit ''www.'') (lit ''m.'')))
             (alt (seq (lit ''youtube.com/watch?'') (seq (star notSpace) (lit ''v='')))
                  (lit ''youtu.be/''))))"
  have sh: "shrinks ?m"
    by (intro shrinks_seq shrinks_opt shrinks_alt shrinks_lit shrinks_star)
  from assms have "r \<in> set (seq (lit (CHR ''h'' # ''ttp'')) ?m s)"
    by (simp add: urlPattern1_def)
  from len_lit_seq [OF sh this] show ?thesis .
qed

lemma len_before2:
  assumes "r \<in> set (fst urlPattern2 s)"
  shows "length r + 1 \<le> length s"
proof -
  let ?m = "seq (star notSpace) (lit ''v='')"
  have sh: "shrinks ?m"
    by (intro shrinks_seq shrinks_lit shrinks_star)
  from assms have "r \<in> set (seq (lit (CHR ''y'' # ''outube.com/watch?'')) ?m s)"
    by (simp add: urlPattern2_def)
  from len_lit_seq [OF sh this] show ?thesis .
qed

lemma len_before3: "r \<in> set (fst urlPattern3 s) \<Longrightarrow> length r + 1 \<le> length s"
  by (auto simp: urlPattern3_def set_lit)

lemma urlPattern_form:
  "p \<in> set urlPatterns \<Longrightarrow> \<exists>b. p = (b, repeatN isIdChar 11, star notSpace)"
  by (auto simp: urlPatterns_def urlPattern1_def urlPattern2_def urlPattern3_def)

lemma len_before:
  assumes "p \<in> set urlPatterns" "r \<in> set (fst p s)"
  shows "length r + 1 \<le> length s"
  using assms len_before1 len_before2 len_before3 by (auto simp: urlPatterns_def)

lemma matchesAt_prefix: "(w, g) \<in> set (matchesAt p s) \<Longrightarrow> prefix w s"
  by (cases p) (auto simp: set_matchesAt take_is_prefix)

lemma matchesAt_urlPattern:
  assumes p: "p \<in> set urlPatterns" and m: "(w, g) \<in> set (matchesAt p s)"
  shows "validId g \<and> length g < length w \<and> prefix w s"
proof -
  from urlPattern_form [OF p] obtain b where pb: "p = (b, repeatN isIdChar 11, star notSpace)" ..
  from m obtain rest r3 where r: "g @ rest \<in> set (b s)" "length g = 11" "\<forall>c\<in>set g. isIdChar c"
    "r3 \<in> set (star notSpace rest)" "w = take (length s - length r3) s"
    unfolding pb matchesAt_group by blast
  from r(1) pb have "g @ rest \<in> set (fst p s)" by simp
  from len_before [OF p this] have l1: "length g + length rest + 1 \<le> length s" by simp
  from r(4) have l2: "length r3 \<le> length rest" by (auto simp: set_star)
  from l1 l2 r(5) have "length g < length w" by simp
  with r(2,3) matchesAt_prefix [OF m] show ?thesis by (simp add: validId_def)
qed

lemma firstWholeMatch_None:
  "firstWholeMatch ps s = None \<longleftrightarrow> (\<forall>p\<in>set ps. exec p s = None)"
  by (induction ps) (auto split: option.splits)

lemma firstWholeMatch_Some:
  "firstWholeMatch ps s = Some u \<Longrightarrow>
   \<exists>k<length ps. \<exists>g. (\<forall>k'<k. exec (ps ! k') s = None) \<and> exec (ps ! k) s = Some (u, g)"
proof (induction ps)
  case Nil
  then show ?case by simp
next
  case (Cons p ps)
  show ?case
  proof (cases "exec p s")
    case None
    with Cons.prems have "firstWholeMatch ps s = Some u" by simp
    from Cons.IH [OF this] obtain k g where k: "k < length ps"
      "\<forall>k'<k. exec (ps ! k') s = None" "exec (ps ! k) s = Some (u, g)" by blast
    have "\<forall>k'<Suc k. exec ((p # ps) ! k') s = None"
    proof (intro allI impI)
      fix k' assume "k' < Suc k"
      with None k(2) show "exec ((p # ps) ! k') s = None" by (cases k') auto
    qed
    with k(1,3) show ?thesis by (intro exI [of _ "Suc k"] exI [of _ g]) simp
  next
    case (Some m)
    with Cons.prems have "exec p s = Some (u, snd m)" by (cases m) simp
    then show ?thesis by (intro exI [of _ 0] exI [of _ "snd m"]) simp
  qed
qed

text \<open>
  C6. \<open>extractUrlFromCommand\<close> answers NotFound exactly when none of the three patterns
  matches at any position of the text. Otherwise it returns the whole match \<open>u\<close> of a
  pattern \<open>k\<close> at a position \<open>j\<close> such that no pattern before \<open>k\<close> in the list matches
  anywhere in the text and pattern \<open>k\<close> matches at no position before \<open>j\<close>: the first
  pattern in priority order that matches, and its first occurrence. What is returned is
  the part of the text that the pattern matched at \<open>j\<close>, which is longer than the
  identifier \<open>g\<close> captured in it.
\<close>

theorem extractUrlFromCommand_spec:
  "(extractUrlFromCommand command = None \<longleftrightarrow>
      (\<forall>p\<in>set urlPatterns. \<forall>j\<le>length command. execAt p (drop j command) = None))
   \<and> (\<forall>u. extractUrlFromCommand command = Some u \<longrightarrow>
        (\<exists>k<length urlPatterns. \<exists>j\<le>length command. \<exists>g.
            (\<forall>k'<k. \<forall>i\<le>length command. execAt (urlPatterns ! k') (drop i command) = None)
          \<and> (\<forall>i<j. execAt (urlPatterns ! k) (drop i command) = None)
          \<and> execAt (urlPatterns ! k) (drop j command) = Some (u, g)
          \<and> command = take j command @ u @ drop (j + length u) command
          \<and> validId g \<and> length g < length u))"
proof (intro conjI allI impI)
  show "extractUrlFromCommand command = None \<longleftrightarrow>
      (\<forall>p\<in>set urlPatterns. \<forall>j\<le>length command. execAt p (drop j command) = None)"
    by (simp add: extractUrlFromCommand_def firstWholeMatch_None exec_None)
next
  fix u assume "extractUrlFromCommand command = Some u"
  then have "firstWholeMatch urlPatterns command = Some u"
    by (simp add: extractUrlFromCommand_def)
  from firstWholeMatch_Some [OF this] obtain k g where k: "k < length urlPatterns"
    "\<forall>k'<k. exec (urlPatterns ! k') command = None"
    "exec (urlPatterns ! k) command = Some (u, g)" by blast
  from exec_Some [OF k(3)] obtain j where j: "j \<le> length command"
    "execAt (urlPatterns ! k) (drop j command) = Some (u, g)"
    "\<forall>i<j. execAt (urlPatterns ! k) (drop i command) = None" by blast
  from k(1) have pk: "urlPatterns ! k \<in> set urlPatterns" by simp
  from execAt_Some [OF j(2)] have "(u, g) \<in> set (matchesAt (urlPatterns ! k) (drop j command))" .
  from matchesAt_urlPattern [OF pk this]
  have vg: "validId g" "length g < length u" and pre: "prefix u (drop j command)" by simp_all
  from pre obtain t where t: "drop j command = u @ t" by (auto simp: prefix_def)
  then have "drop (j + length u) command = t"
    by (metis add.commute append_eq_conv_conj drop_drop)
  with t have dec: "command = take j command @ u @ drop (j + length u) command"
    by (metis append_take_drop_id)
  from k(2) have "\<forall>k'<k. \<forall>i\<le>length command. execAt (urlPatterns ! k') (drop i command) = None"
    by (simp add: exec_None)
  with k(1) j vg dec
  show "\<exists>k<length urlPatterns. \<exists>j\<le>length command. \<exists>g.
            (\<forall>k'<k. \<forall>i\<le>length command. execAt (urlPatterns ! k') (drop i command) = None)
          \<and> (\<forall>i<j. execAt (urlPatterns ! k) (drop i command) = None)
          \<and> execAt (urlPatterns ! k) (drop j command) = Some (u, g)
          \<and> command = take j command @ u @ drop (j + length u) command
          \<and> validId g \<and> length g < length u"
    by blast
qed

theorem extractUrlFromCommand_spec_witness:
  "extractUrlFromCommand ''please transcribe: https://youtu.be/P2DfG5JEAmA''
     = Some ''https://youtu.be/P2DfG5JEAmA''
   \<and> extractUrlFromCommand ''invalid command without url'' = None
   \<and> extractUrlFromCommand
        ''see youtu.be/P2DfG5JEAmA?x and https://www.youtube.com/watch?t=1&v=P2DfG5JEAmA&t=447s ok''
     = Some ''https://www.youtube.com/watch?t=1&v=P2DfG5JEAmA&t=447s''
   \<and> execAt urlPattern3 (drop 19 ''please transcribe: https://youtu.be/P2DfG5JEAmA'') = None
   \<and> execAt urlPattern1 (drop 19 ''please transcribe: https://youtu.be/P2DfG5JEAmA'')
     = Some (''https://youtu.be/P2DfG5JEAmA'', ''P2DfG5JEAmA'')"
proof -
  have a: "extractUrlFromCommand ''please transcribe: https://youtu.be/P2DfG5JEAmA''
     = Some ''https://youtu.be/P2DfG5JEAmA''" by code_simp
  have b: "extractUrlFromCommand ''invalid command without url'' = None" by code_simp
  have c: "extractUrlFromCommand
        ''see youtu.be/P2DfG5JEAmA?x and https://www.youtube.com/watch?t=1&v=P2DfG5JEAmA&t=447s ok''
     = Some ''https://www.youtube.com/watch?t=1&v=P2DfG5JEAmA&t=447s''" by code_simp
  have d: "execAt urlPattern3 (drop 19 ''please transcribe: https://youtu.be/P2DfG5JEAmA'') = None"
    by code_simp
  have e: "execAt urlPattern1 (drop 19 ''please transcribe: https://youtu.be/P2DfG5JEAmA'')
     = Some (''https://youtu.be/P2DfG5JEAmA'', ''P2DfG5JEAmA'')" by code_simp
  from extractUrlFromCommand_spec [of "''invalid command without url''"] b
  have "\<forall>p\<in>set urlPatterns. \<forall>j\<le>length ''invalid command without url''.
      execAt p (drop j ''invalid command without url'') = None" by blast
  with a b c d e show ?thesis by (intro conjI)
qed

subsection \<open>extractVideoId\<close>





subsection \<open>What every handler keeps of the store\<close>

text \<open>
  The two properties of the store that the theorems above assume hold in the initial
  state and are kept by every handler that changes the store.
\<close>

lemma store_ok_mapSet_new:
  assumes "store_ok m" "map_of m k = None" "vd_id v = k"
  shows "store_ok (mapSet m k v)"
proof -
  from assms(2) have "k \<notin> fst ` set m" by (simp add: map_of_eq_None_iff)
  with assms(1,3) show ?thesis
    by (simp add: mapSet_new [OF assms(2)] store_ok_def)
qed

lemma keysValid_mapSet_new:
  assumes "keysValid m" "map_of m k = None" "validId k"
  shows "keysValid (mapSet m k v)"
  using assms by (simp add: mapSet_new [OF assms(2)] keysValid_def mapKeys_def)

lemma initialState_invariants: "store_ok (videos initialState) \<and> keysValid (videos initialState)"
  by (simp add: initialState_def store_ok_def keysValid_def mapKeys_def)

lemma addYouTubeVideo_invariants:
  assumes "store_ok (videos st)" "keysValid (videos st)"
  shows "store_ok (videos (snd (addYouTubeVideo fetch st url lang)))
       \<and> keysValid (videos (snd (addYouTubeVideo fetch st url lang)))"
proof (cases "extractVideoId url")
  case None
  with assms show ?thesis by (simp add: addYouTubeVideo_def)
next
  case (Some k)
  then have v: "validId k" using extractVideoId_sound by blast
  show ?thesis
  proof (cases "mapHas (videos st) k")
    case True
    with Some assms show ?thesis by (simp add: addYouTubeVideo_def)
  next
    case False
    then have n: "map_of (videos st) k = None" by (simp add: mapHas_def)
    show ?thesis
    proof (cases "fetch (fetchLog st) k (case lang of None \<Rightarrow> ''en'' | Some l \<Rightarrow> l)")
      case (Inl e)
      with Some False assms show ?thesis by (simp add: addYouTubeVideo_def Let_def)
    next
      case (Inr raw)
      with Some False assms v n show ?thesis
        by (simp add: addYouTubeVideo_def Let_def store_ok_mapSet_new keysValid_mapSet_new
              getVideoInfo_def)
    qed
  qed
qed

lemma transcribeFromCommand_invariants:
  assumes "store_ok (videos st)" "keysValid (videos st)"
  shows "store_ok (videos (snd (transcribeFromCommand fetch st command lang)))
       \<and> keysValid (videos (snd (transcribeFromCommand fetch st command lang)))"
  using assms addYouTubeVideo_invariants [OF assms]
  by (simp add: transcribeFromCommand_def Let_def split: option.splits)

lemma removeVideo_invariants:
  assumes "store_ok (videos st)" "keysValid (videos st)"
  shows "store_ok (videos (snd (removeVideo st k)))
       \<and> keysValid (videos (snd (removeVideo st k)))"
proof -
  from assms(2) have "keysValid (mapDelete (videos st) k)"
    by (simp add: keysValid_def mapKeys_def mapDelete_def list_all_iff)
  with assms store_ok_mapDelete [OF assms(1), of k] show ?thesis
    by (simp add: removeVideo_def split: option.splits)
qed

lemma clearAllVideos_invariants:
  "store_ok (videos (snd (clearAllVideos st))) \<and> keysValid (videos (snd (clearAllVideos st)))"
  by (simp add: clearAllVideos_def store_ok_def keysValid_def mapKeys_def)

end
